theory Spec2Isabelle
  imports Main "HOL-Library.Word" "HOL-Library.AList"
begin

unbundle bit_operations_syntax

section \<open>Bytes and faults\<close>

type_synonym u8 = "8 word"
type_synonym u16 = "16 word"
type_synonym u64 = "64 word"
type_synonym Bytes = "u8 list"

text \<open>
  C++ has two ways of going wrong in the functions embedded here: an exception that the
  code throws itself (\<open>std::out_of_range\<close> in \<open>NibblePath::get_nibble\<close>), and an
  unchecked container access past the end (\<open>operator[]\<close>, \<open>insert\<close>, \<open>back\<close> on a
  \<open>std::vector\<close> or \<open>std::list\<close>), which is undefined behaviour. Both are values of
  the model: \<open>OutOfRange\<close> is the thrown exception, \<open>OutOfBounds\<close> the unchecked access.
\<close>

datatype fault = OutOfRange | OutOfBounds

section \<open>nibble\_path.hpp\<close>

text \<open>The members \<open>bytes_\<close> and \<open>num_nibbles_\<close> of the class are the fields
  \<open>path_bytes\<close> and \<open>nibble_count\<close>. A \<open>size_t\<close> is a \<open>nat\<close> below \<open>2 ^ 64\<close>; the
  one sum that can leave that range, \<open>num_nibbles + 1\<close> in \<open>from_bytes\<close>, wraps.\<close>

record NibblePath =
  path_bytes :: Bytes
  nibble_count :: nat

definition NibblePath_empty :: NibblePath where
  "NibblePath_empty = \<lparr>path_bytes = [], nibble_count = 0\<rparr>"

text \<open>\<open>NibblePath::from_bytes\<close>: keeps at most \<open>(num_nibbles + 1) / 2\<close> bytes of the
  input (a shorter input is taken as it is), then clears the padding nibble of the last
  stored byte when the nibble count is odd.\<close>

definition NibblePath_from_bytes :: "Bytes \<Rightarrow> nat \<Rightarrow> NibblePath" where
  "NibblePath_from_bytes bytes num_nibbles =
     (let expected_size = ((num_nibbles + 1) mod 2 ^ 64) div 2;
          bs = (if length bytes > expected_size then take expected_size bytes else bytes);
          bs' = (if num_nibbles mod 2 \<noteq> 0 \<and> bs \<noteq> []
                 then bs[length bs - 1 := (bs ! (length bs - 1)) AND 0xF0] else bs)
      in \<lparr>path_bytes = bs', nibble_count = num_nibbles\<rparr>)"

definition NibblePath_size :: "NibblePath \<Rightarrow> nat" where
  "NibblePath_size p = nibble_count p"

text \<open>\<open>NibblePath::get_nibble\<close>: the index is checked against the nibble count only;
  the read \<open>bytes_[index / 2]\<close> is unchecked.\<close>

definition NibblePath_get_nibble :: "NibblePath \<Rightarrow> nat \<Rightarrow> fault + u8" where
  "NibblePath_get_nibble p index =
     (if index \<ge> nibble_count p then Inl OutOfRange
      else if index div 2 \<ge> length (path_bytes p) then Inl OutOfBounds
      else (let byte = path_bytes p ! (index div 2)
            in Inr (if index mod 2 = 0 then drop_bit 4 byte else byte AND 0x0F)))"

section \<open>common/hash.hpp (declarations only)\<close>

text \<open>
  Modelled from the spec: \<open>glofica::Hash\<close> is declared in \<open>common/hash.hpp\<close>, which is
  not among the sources. The spec gives it as a fixed-width opaque byte string of
  \<open>H = 64\<close> bytes, and the sources use it as a \<open>std::array\<close> of 64 bytes (\<open>begin()\<close>,
  \<open>end()\<close>, \<open>fill(0)\<close>, and 64-byte copies into it). The hash function
  \<open>hash::blake3\<close> of the same header is a parameter of every definition that calls it.
\<close>

typedef Hash = "{bs :: u8 list. length bs = 64}"
  morphisms hash_bytes bytes_to_hash
  by (rule exI [of _ "replicate 64 0"]) simp

definition zero_hash :: Hash where
  "zero_hash = bytes_to_hash (replicate 64 0)"

text \<open>A stand-in for the hash function in examples: the first 64 bytes of the input,
  filled up with zeros. It is not collision-free, but it tells apart inputs that differ
  within their first 64 bytes.\<close>

definition pad_hash :: "Bytes \<Rightarrow> Hash" where
  "pad_hash bs = bytes_to_hash (take 64 (bs @ replicate 64 0))"

text \<open>Modelled from the spec: \<open>std::popcount\<close> of the C++20 header \<open>bit\<close>, the number
  of bits set in a 16-bit value.\<close>

definition popcount16 :: "u16 \<Rightarrow> nat" where
  "popcount16 m = length (filter (bit m) [0..<16])"

section \<open>sparse\_bitmap.hpp\<close>

text \<open>The class has the single member \<open>mask_\<close>, read by \<open>raw_mask()\<close>. The nibble
  arguments are \<open>uint8_t\<close>; the shifts are done on \<open>int\<close> after integral promotion
  (32 bits), and \<open>mask_before\<close> and \<open>mask_\<close> are cut back to 16 bits on assignment.
  The documented domain of a nibble argument is 0 to 15, and the results below are
  about such arguments; a shift count of 32 or more is undefined in C++.\<close>

record SparseBitmap =
  raw_mask :: u16

definition SparseBitmap_new :: SparseBitmap where
  "SparseBitmap_new = \<lparr>raw_mask = 0\<rparr>"

definition SparseBitmap_exists :: "SparseBitmap \<Rightarrow> u8 \<Rightarrow> bool" where
  "SparseBitmap_exists b nibble =
     (drop_bit (unat nibble) (ucast (raw_mask b) :: 32 word) AND 1 \<noteq> 0)"

definition SparseBitmap_get_index :: "SparseBitmap \<Rightarrow> u8 \<Rightarrow> u8" where
  "SparseBitmap_get_index b nibble =
     (let mask_before = (ucast (push_bit (unat nibble) (1 :: 32 word) - 1) :: u16)
      in of_nat (popcount16 (raw_mask b AND mask_before)))"

definition SparseBitmap_set :: "SparseBitmap \<Rightarrow> u8 \<Rightarrow> SparseBitmap" where
  "SparseBitmap_set b nibble =
     b\<lparr>raw_mask := raw_mask b OR ucast (push_bit (unat nibble) (1 :: 32 word))\<rparr>"

definition SparseBitmap_total_children :: "SparseBitmap \<Rightarrow> nat" where
  "SparseBitmap_total_children b = popcount16 (raw_mask b)"

definition SparseBitmap_empty :: "SparseBitmap \<Rightarrow> bool" where
  "SparseBitmap_empty b = (raw_mask b = 0)"

section \<open>node\_type.hpp\<close>

definition XOOK_INTERNAL_NODE_DOMAIN :: string where
  "XOOK_INTERNAL_NODE_DOMAIN = ''GLOFICA_InternalNode_V2_PQ''"

definition XOOK_LEAF_NODE_DOMAIN :: string where
  "XOOK_LEAF_NODE_DOMAIN = ''GLOFICA_LeafNode_V2_PQ''"

text \<open>The characters of a \<open>std::string\<close> appended to a byte vector.\<close>

definition string_bytes :: "string \<Rightarrow> Bytes" where
  "string_bytes s = map (\<lambda>c. of_nat (of_char c)) s"

record NodeKey =
  version :: u64
  nibble_path :: NibblePath

record ChildInfo =
  hash :: Hash
  version :: u64

record InternalNode =
  bitmap :: SparseBitmap
  children :: "ChildInfo list"

record LeafNode =
  account_key :: Hash
  value_hash :: Hash

datatype Node = Internal InternalNode | Leaf LeafNode

definition InternalNode_new :: InternalNode where
  "InternalNode_new = \<lparr>bitmap = SparseBitmap_new, children = []\<rparr>"

text \<open>\<open>InternalNode::get_child\<close>: \<open>children[bitmap.get_index(nibble)]\<close> is an unchecked
  vector read.\<close>

definition InternalNode_get_child :: "InternalNode \<Rightarrow> u8 \<Rightarrow> fault + ChildInfo option" where
  "InternalNode_get_child node nibble =
     (if \<not> SparseBitmap_exists (bitmap node) nibble then Inr None
      else (let idx = unat (SparseBitmap_get_index (bitmap node) nibble)
            in if idx < length (children node) then Inr (Some (children node ! idx))
               else Inl OutOfBounds))"

text \<open>\<open>InternalNode::set_child\<close>: \<open>children.insert(children.begin() + idx, info)\<close> needs
  \<open>idx \<le> size\<close>, \<open>children[idx] = info\<close> needs \<open>idx < size\<close>; neither is checked.\<close>

definition InternalNode_set_child ::
  "InternalNode \<Rightarrow> u8 \<Rightarrow> Hash \<Rightarrow> u64 \<Rightarrow> fault + InternalNode" where
  "InternalNode_set_child node nibble h v =
     (let info = \<lparr>hash = h, version = v\<rparr>
      in if \<not> SparseBitmap_exists (bitmap node) nibble
         then (let bm = SparseBitmap_set (bitmap node) nibble;
                   idx = unat (SparseBitmap_get_index bm nibble)
               in if idx \<le> length (children node)
                  then Inr \<lparr>bitmap = bm,
                            children = take idx (children node) @ [info] @ drop idx (children node)\<rparr>
                  else Inl OutOfBounds)
         else (let idx = unat (SparseBitmap_get_index (bitmap node) nibble)
               in if idx < length (children node)
                  then Inr (node\<lparr>children := (children node)[idx := info]\<rparr>)
                  else Inl OutOfBounds))"

text \<open>The eight bytes \<open>(v >> (i * 8)) & 0xFF\<close>, \<open>i = 0, ..., 7\<close>, that the serializer
  pushes for a version, and the loop of the deserializer that assembles them again
  from \<open>bytes[pos + bit]\<close>.\<close>

definition version_le_bytes :: "u64 \<Rightarrow> Bytes" where
  "version_le_bytes v = map (\<lambda>i. ucast (drop_bit (i * 8) v AND 0xFF)) [0..<8]"

definition read_version_le :: "Bytes \<Rightarrow> nat \<Rightarrow> u64" where
  "read_version_le bytes pos =
     fold (\<lambda>b v. v OR push_bit (b * 8) (ucast (bytes ! (pos + b)))) [0..<8] 0"

definition InternalNode_serialize_canonical :: "InternalNode \<Rightarrow> Bytes" where
  "InternalNode_serialize_canonical node =
     (let mask = raw_mask (bitmap node)
      in [ucast (mask AND 0xFF), ucast (drop_bit 8 mask AND 0xFF)]
         @ concat (map (\<lambda>child. hash_bytes (hash child) @ version_le_bytes (version child))
                       (children node)))"

text \<open>The 72 bytes that the loop of \<open>serialize_canonical\<close> appends for one child.\<close>

definition child_record :: "ChildInfo \<Rightarrow> Bytes" where
  "child_record c = hash_bytes (hash c) @ version_le_bytes (ChildInfo.version c)"

definition InternalNode_hash :: "(Bytes \<Rightarrow> Hash) \<Rightarrow> InternalNode \<Rightarrow> Hash" where
  "InternalNode_hash blake3 node =
     blake3 (string_bytes XOOK_INTERNAL_NODE_DOMAIN @ InternalNode_serialize_canonical node)"

definition LeafNode_serialize_canonical :: "LeafNode \<Rightarrow> Bytes" where
  "LeafNode_serialize_canonical leaf =
     hash_bytes (account_key leaf) @ hash_bytes (value_hash leaf)"

definition LeafNode_hash :: "(Bytes \<Rightarrow> Hash) \<Rightarrow> LeafNode \<Rightarrow> Hash" where
  "LeafNode_hash blake3 leaf =
     blake3 (string_bytes XOOK_LEAF_NODE_DOMAIN @ LeafNode_serialize_canonical leaf)"

fun serialize_node :: "Node \<Rightarrow> Bytes" where
  "serialize_node (Internal n) = InternalNode_serialize_canonical n"
| "serialize_node (Leaf l) = LeafNode_serialize_canonical l"

fun hash_node :: "(Bytes \<Rightarrow> Hash) \<Rightarrow> Node \<Rightarrow> Hash" where
  "hash_node blake3 (Internal n) = InternalNode_hash blake3 n"
| "hash_node blake3 (Leaf l) = LeafNode_hash blake3 l"

section \<open>node\_serde.hpp\<close>

fun serialize_node_with_prefix :: "Node \<Rightarrow> Bytes" where
  "serialize_node_with_prefix (Internal n) = 0x01 # InternalNode_serialize_canonical n"
| "serialize_node_with_prefix (Leaf l) = 0x02 # LeafNode_serialize_canonical l"

text \<open>The loop over the children of \<open>deserialize_node_from_bytes\<close>: \<open>n\<close> iterations are
  left, \<open>pos\<close> is the read position and \<open>acc\<close> the descriptors pushed so far. It gives
  up (\<open>None\<close>) as soon as fewer than 72 bytes are left for a descriptor.\<close>

fun read_children :: "Bytes \<Rightarrow> nat \<Rightarrow> nat \<Rightarrow> ChildInfo list \<Rightarrow> (nat \<times> ChildInfo list) option" where
  "read_children bytes pos 0 acc = Some (pos, acc)"
| "read_children bytes pos (Suc n) acc =
     (if pos + 72 > length bytes then None
      else (let info = \<lparr>hash = bytes_to_hash (take 64 (drop pos bytes)),
                         version = read_version_le bytes (pos + 64)\<rparr>
            in read_children bytes (pos + 72) n (acc @ [info])))"

definition deserialize_node_from_bytes :: "Bytes \<Rightarrow> Node option" where
  "deserialize_node_from_bytes bytes =
     (if bytes = [] then None
      else (let type = bytes ! 0
            in if type = 0x01
               then (if length bytes < 3 then None
                     else (let bitmap_mask = (ucast (bytes ! 1) OR push_bit 8 (ucast (bytes ! 2)) :: u16);
                               bm = \<lparr>raw_mask = bitmap_mask\<rparr>;
                               num_children = SparseBitmap_total_children bm
                           in case read_children bytes 3 num_children [] of
                                None \<Rightarrow> None
                              | Some (pos, cs) \<Rightarrow>
                                  if pos \<noteq> length bytes then None
                                  else Some (Internal \<lparr>bitmap = bm, children = cs\<rparr>)))
               else if type = 0x02
               then (if length bytes \<noteq> 129 then None
                     else Some (Leaf \<lparr>account_key = bytes_to_hash (take 64 (drop 1 bytes)),
                                      value_hash = bytes_to_hash (take 64 (drop 65 bytes))\<rparr>))
               else None))"

section \<open>tree\_cache.hpp\<close>

text \<open>
  \<open>TreeCache\<close> holds the capacity, the recency list \<open>lru_list_\<close> (most recent at the
  front) and \<open>cache_map_\<close>, an \<open>unordered_map\<close> from key to the node and an iterator
  into the list. The iterator is the position of the key in the list, so
  \<open>splice(begin, list, it)\<close> is: take that key out of the list and put it at the front.
  The cache is written for any key and node type; the repository uses \<open>NodeKey\<close> and
  \<open>Node\<close>. \<open>size()\<close> is the number of keys of the map. The mutex is not modelled:
  every operation holds it from entry to exit.
\<close>

record ('k, 'v) TreeCache =
  capacity :: nat
  lru_list :: "'k list"
  cache_map :: "'k \<rightharpoonup> 'v"

definition TreeCache_new :: "nat \<Rightarrow> ('k, 'v) TreeCache" where
  "TreeCache_new c = \<lparr>capacity = c, lru_list = [], cache_map = Map.empty\<rparr>"

definition TreeCache_size :: "('k, 'v) TreeCache \<Rightarrow> nat" where
  "TreeCache_size c = card (dom (cache_map c))"

definition TreeCache_get :: "('k, 'v) TreeCache \<Rightarrow> 'k \<Rightarrow> 'v option \<times> ('k, 'v) TreeCache" where
  "TreeCache_get c key =
     (case cache_map c key of
        None \<Rightarrow> (None, c)
      | Some node \<Rightarrow> (Some node, c\<lparr>lru_list := key # remove1 key (lru_list c)\<rparr>))"

text \<open>\<open>TreeCache::put\<close>: \<open>lru_list_.back()\<close> on an empty list is the unchecked access
  of the eviction branch.\<close>

definition TreeCache_put ::
  "('k, 'v) TreeCache \<Rightarrow> 'k \<Rightarrow> 'v \<Rightarrow> fault + ('k, 'v) TreeCache" where
  "TreeCache_put c key node =
     (case cache_map c key of
        Some old \<Rightarrow>
          Inr (c\<lparr>lru_list := key # remove1 key (lru_list c),
                 cache_map := (cache_map c)(key \<mapsto> node)\<rparr>)
      | None \<Rightarrow>
          if TreeCache_size c \<ge> capacity c
          then (if lru_list c = [] then Inl OutOfBounds
                else (let last = last (lru_list c);
                          l = butlast (lru_list c);
                          m = (cache_map c)(last := None)
                      in Inr (c\<lparr>lru_list := key # l, cache_map := m(key \<mapsto> node)\<rparr>)))
          else Inr (c\<lparr>lru_list := key # lru_list c,
                       cache_map := (cache_map c)(key \<mapsto> node)\<rparr>))"

definition TreeCache_clear :: "('k, 'v) TreeCache \<Rightarrow> ('k, 'v) TreeCache" where
  "TreeCache_clear c = c\<lparr>lru_list := [], cache_map := Map.empty\<rparr>"

section \<open>xook\_adapter.hpp: SpeculativeTreeCache\<close>

text \<open>
  The overlay holds a pointer to the base cache and two private maps. The state of the
  pointee is the field \<open>base_cache\<close> (\<open>None\<close> for a null pointer): what an operation
  leaves in that field is what it leaves in the shared base. The members inherited from
  \<open>TreeCache(0)\<close> are used by no overriding method and are left out.
\<close>

record ('k, 'v) SpeculativeTreeCache =
  base_cache :: "('k, 'v) TreeCache option"
  overlay :: "'k \<rightharpoonup> 'v"
  injected :: "'k \<rightharpoonup> 'v"

definition SpeculativeTreeCache_new ::
  "('k, 'v) TreeCache option \<Rightarrow> ('k, 'v) SpeculativeTreeCache" where
  "SpeculativeTreeCache_new base = \<lparr>base_cache = base, overlay = Map.empty, injected = Map.empty\<rparr>"

definition SpeculativeTreeCache_inject_node ::
  "('k, 'v) SpeculativeTreeCache \<Rightarrow> 'k \<Rightarrow> 'v \<Rightarrow> ('k, 'v) SpeculativeTreeCache" where
  "SpeculativeTreeCache_inject_node s key node = s\<lparr>injected := (injected s)(key \<mapsto> node)\<rparr>"

definition SpeculativeTreeCache_get ::
  "('k, 'v) SpeculativeTreeCache \<Rightarrow> 'k \<Rightarrow> 'v option \<times> ('k, 'v) SpeculativeTreeCache" where
  "SpeculativeTreeCache_get s key =
     (case overlay s key of
        Some node \<Rightarrow> (Some node, s)
      | None \<Rightarrow>
          (case injected s key of
             Some node \<Rightarrow> (Some node, s)
           | None \<Rightarrow>
               (case base_cache s of
                  None \<Rightarrow> (None, s)
                | Some b \<Rightarrow> (let (r, b') = TreeCache_get b key
                             in (r, s\<lparr>base_cache := Some b'\<rparr>)))))"

definition SpeculativeTreeCache_put ::
  "('k, 'v) SpeculativeTreeCache \<Rightarrow> 'k \<Rightarrow> 'v \<Rightarrow> ('k, 'v) SpeculativeTreeCache" where
  "SpeculativeTreeCache_put s key node = s\<lparr>overlay := (overlay s)(key \<mapsto> node)\<rparr>"

definition SpeculativeTreeCache_clear ::
  "('k, 'v) SpeculativeTreeCache \<Rightarrow> ('k, 'v) SpeculativeTreeCache" where
  "SpeculativeTreeCache_clear s = s\<lparr>overlay := Map.empty, injected := Map.empty\<rparr>"

definition SpeculativeTreeCache_size :: "('k, 'v) SpeculativeTreeCache \<Rightarrow> nat" where
  "SpeculativeTreeCache_size s = card (dom (overlay s)) + card (dom (injected s))"

text \<open>A sequence of the three mutating calls of the overlay, applied in order.\<close>

datatype ('k, 'v) overlay_call = Put 'k 'v | InjectNode 'k 'v | Clear

fun overlay_step ::
  "('k, 'v) SpeculativeTreeCache \<Rightarrow> ('k, 'v) overlay_call \<Rightarrow> ('k, 'v) SpeculativeTreeCache" where
  "overlay_step s (Put k v) = SpeculativeTreeCache_put s k v"
| "overlay_step s (InjectNode k v) = SpeculativeTreeCache_inject_node s k v"
| "overlay_step s Clear = SpeculativeTreeCache_clear s"

definition overlay_run ::
  "('k, 'v) SpeculativeTreeCache \<Rightarrow> ('k, 'v) overlay_call list \<Rightarrow> ('k, 'v) SpeculativeTreeCache" where
  "overlay_run s calls = foldl overlay_step s calls"

section \<open>xmt\_legacy\_adapter.hpp: put\<close>

text \<open>
  Modelled from the spec: \<open>glofica::Hash256\<close> is declared in \<open>common/hash.hpp\<close>; the
  adapter uses it as an array of 32 bytes. Here it is the byte list that the adapter
  builds, always 32 bytes long. The \<open>unordered_map\<close> of pending updates is an
  association list with one entry per key; \<open>m[k] = v\<close> is \<open>AList.update\<close>.
\<close>

type_synonym Hash256 = Bytes

record XMTLegacyAdapter =
  pending_updates :: "(Hash256 \<times> Bytes) list"
  current_version :: u64
  last_root :: Hash256

definition XMTLegacyAdapter_new :: XMTLegacyAdapter where
  "XMTLegacyAdapter_new =
     \<lparr>pending_updates = [], current_version = 0, last_root = replicate 32 0\<rparr>"

text \<open>The key conversion of \<open>XMTLegacyAdapter::put\<close>: the first 32 bytes of the key, or
  the key followed by zeros up to 32 bytes.\<close>

definition legacy_key_hash :: "Bytes \<Rightarrow> Hash256" where
  "legacy_key_hash key =
     (if length key \<ge> 32 then take 32 key else key @ replicate (32 - length key) 0)"

definition XMTLegacyAdapter_put ::
  "XMTLegacyAdapter \<Rightarrow> Bytes \<Rightarrow> Hash256 \<Rightarrow> u64 \<Rightarrow> XMTLegacyAdapter" where
  "XMTLegacyAdapter_put a key val_hash ver =
     (let key_hash = legacy_key_hash key;
          value_bytes = val_hash
      in a\<lparr>pending_updates := AList.update key_hash value_bytes (pending_updates a),
            current_version := ver\<rparr>)"

section \<open>xook\_adapter.hpp: XookAdapter\<close>

text \<open>
  Modelled from the spec: \<open>TreeUpdateBatch\<close> and \<open>XookTree\<close> are declared in
  \<open>xook_merkle_tree.hpp\<close>, which is not among the sources. The batch is the pair of the
  new root hash and the node writes that the spec gives as the result of
  \<open>put_value_set\<close>; a default-constructed batch has no node writes. The tree, with the
  cache and the reader it points to, is a state of type \<open>'t\<close>; \<open>put_value_set\<close> and
  \<open>XookTree::get_root_hash\<close> are parameters. \<open>put_value_set\<close> takes the updates, the
  version, the optional base root and the optional base version, and either returns a
  batch and the tree's new state or fails with an error of type \<open>'e\<close> (the spec lists
  its failures; an exception leaves \<open>calculate_root\<close> at the call).
\<close>

record TreeUpdateBatch =
  new_root_hash :: Hash
  node_batch :: "(NodeKey \<times> Bytes) list"

type_synonym ('t, 'e) put_value_set =
  "'t \<Rightarrow> (Hash \<times> Bytes option) list \<Rightarrow> u64 \<Rightarrow> Hash option \<Rightarrow> u64 option
     \<Rightarrow> 'e + (TreeUpdateBatch \<times> 't)"

record 't XookAdapter =
  tree :: 't
  pending_updates :: "(Hash \<times> Bytes) list"
  current_version :: u64
  last_root :: Hash

definition XookAdapter_new :: "'t \<Rightarrow> 't XookAdapter" where
  "XookAdapter_new t =
     \<lparr>tree = t, pending_updates = [], current_version = 0, last_root = zero_hash\<rparr>"

definition XookAdapter_put ::
  "(Bytes \<Rightarrow> Hash) \<Rightarrow> 't XookAdapter \<Rightarrow> Bytes \<Rightarrow> Hash \<Rightarrow> u64 \<Rightarrow> 't XookAdapter" where
  "XookAdapter_put blake3 a key val_hash ver =
     (let key_hash = blake3 key;
          value_bytes = hash_bytes val_hash
      in a\<lparr>pending_updates := AList.update key_hash value_bytes (pending_updates a),
            current_version := ver\<rparr>)"

text \<open>The batch that \<open>calculate_root\<close> builds: the explicit updates, hashed, then the
  pending entries in the iteration order of the map. That order is implementation
  defined for an \<open>unordered_map\<close>; the pending list of an adapter state stands for the
  map in one such order, and the results on \<open>calculate_root\<close> hold for every adapter
  state, so for every order of the pending entries.\<close>

definition merged_batch ::
  "(Bytes \<Rightarrow> Hash) \<Rightarrow> 't XookAdapter \<Rightarrow> (Bytes \<times> Hash) list \<Rightarrow> (Hash \<times> Bytes) list" where
  "merged_batch blake3 a updates =
     map (\<lambda>(key, val_hash). (blake3 key, hash_bytes val_hash)) updates @ pending_updates a"

definition XookAdapter_calculate_root ::
  "('t, 'e) put_value_set \<Rightarrow> (Bytes \<Rightarrow> Hash) \<Rightarrow> 't XookAdapter \<Rightarrow> (Bytes \<times> Hash) list
     \<Rightarrow> Hash \<Rightarrow> u64 \<Rightarrow> u64 option \<Rightarrow> 'e + (TreeUpdateBatch \<times> 't XookAdapter)" where
  "XookAdapter_calculate_root put_value_set blake3 a updates base_root ver base_version =
     (let batch = merged_batch blake3 a updates
      in if batch = []
         then Inr (\<lparr>new_root_hash = base_root, node_batch = []\<rparr>, a)
         else (let jmt_updates = map (\<lambda>(k, v). (k, Some v)) batch
               in case put_value_set (tree a) jmt_updates ver (Some base_root) base_version of
                    Inl e \<Rightarrow> Inl e
                  | Inr (result, t') \<Rightarrow>
                      Inr (result, a\<lparr>tree := t', pending_updates := [],
                                      current_version := ver,
                                      last_root := new_root_hash result\<rparr>)))"

definition XookAdapter_get_root_hash ::
  "('t \<Rightarrow> u64 \<Rightarrow> Hash) \<Rightarrow> 't XookAdapter \<Rightarrow> u64 \<Rightarrow> Hash" where
  "XookAdapter_get_root_hash tree_get_root_hash a ver =
     (if ver = current_version a then last_root a
      else tree_get_root_hash (tree a) ver)"

section \<open>The specification's notions\<close>

text \<open>The framing rule of the specification, with \<open>H = 64\<close>: the kind tag, then for a
  leaf exactly \<open>2H\<close> bytes, for an internal node the mask in two little-endian bytes
  and exactly \<open>popcount(mask)\<close> descriptors of \<open>H + 8\<close> bytes.\<close>

definition framed_mask :: "Bytes \<Rightarrow> u16" where
  "framed_mask b = of_nat (unat (b ! 1) + 256 * unat (b ! 2))"

definition valid_framed :: "Bytes \<Rightarrow> bool" where
  "valid_framed b \<longleftrightarrow>
     b \<noteq> [] \<and>
     (if b ! 0 = 0x01
      then 3 \<le> length b \<and> length b = 1 + 2 + popcount16 (framed_mask b) * (64 + 8)
      else if b ! 0 = 0x02 then length b = 1 + 2 * 64
      else False)"

text \<open>An internal node whose child list has one descriptor per set mask bit.\<close>

definition sparse_map_sized :: "InternalNode \<Rightarrow> bool" where
  "sparse_map_sized node \<longleftrightarrow>
     length (children node) = popcount16 (raw_mask (bitmap node))"

fun well_formed_node :: "Node \<Rightarrow> bool" where
  "well_formed_node (Internal n) = sparse_map_sized n"
| "well_formed_node (Leaf l) = True"

text \<open>The canonical layout of an internal node in the specification's words: the
  little-endian encoding of a number in \<open>k\<close> bytes, the nibbles present in ascending
  order, and for each of them the hash and the version of the child that \<open>get_child\<close>
  gives.\<close>

definition le_bytes :: "nat \<Rightarrow> nat \<Rightarrow> Bytes" where
  "le_bytes k x = map (\<lambda>i. of_nat ((x div 256 ^ i) mod 256)) [0..<k]"

definition present_nibbles :: "InternalNode \<Rightarrow> u8 list" where
  "present_nibbles node = filter (SparseBitmap_exists (bitmap node)) (map of_nat [0..<16])"

definition descriptor_layout :: "InternalNode \<Rightarrow> u8 \<Rightarrow> Bytes" where
  "descriptor_layout node n =
     (case InternalNode_get_child node n of
        Inr (Some c) \<Rightarrow> hash_bytes (hash c) @ le_bytes 8 (unat (ChildInfo.version c))
      | _ \<Rightarrow> [])"

definition canonical_layout :: "InternalNode \<Rightarrow> Bytes" where
  "canonical_layout node =
     le_bytes 2 (unat (raw_mask (bitmap node)))
     @ concat (map (descriptor_layout node) (present_nibbles node))"

text \<open>The descriptor that the specification's invariant places at a nibble: when bit
  \<open>n\<close> of the mask is set, the entry of the child list at index
  \<open>popcount(mask & ((1 << n) - 1))\<close>.\<close>

definition child_at :: "InternalNode \<Rightarrow> u8 \<Rightarrow> ChildInfo option" where
  "child_at node n =
     (if bit (raw_mask (bitmap node)) (unat n)
      then Some (children node ! popcount16 (raw_mask (bitmap node) AND (2 ^ unat n - 1)))
      else None)"

text \<open>A sequence of \<open>set_child\<close> calls, stopping at the first fault, and the descriptor
  most recently set for a nibble by such a sequence.\<close>

fun set_children :: "InternalNode \<Rightarrow> (u8 \<times> Hash \<times> u64) list \<Rightarrow> fault + InternalNode" where
  "set_children node [] = Inr node"
| "set_children node ((n, h, v) # calls) =
     (case InternalNode_set_child node n h v of
        Inl e \<Rightarrow> Inl e
      | Inr node' \<Rightarrow> set_children node' calls)"

fun latest_child :: "(u8 \<times> Hash \<times> u64) list \<Rightarrow> u8 \<Rightarrow> ChildInfo option" where
  "latest_child [] n = None"
| "latest_child ((m, h, v) # calls) n =
     (case latest_child calls n of
        Some c \<Rightarrow> Some c
      | None \<Rightarrow> if m = n then Some \<lparr>hash = h, version = v\<rparr> else None)"

text \<open>A sequence of \<open>put\<close> calls on the LRU cache, stopping at the first fault;
  a key is present when \<open>get\<close> returns a node for it.\<close>

fun TreeCache_put_all ::
  "('k, 'v) TreeCache \<Rightarrow> ('k \<times> 'v) list \<Rightarrow> fault + ('k, 'v) TreeCache" where
  "TreeCache_put_all c [] = Inr c"
| "TreeCache_put_all c ((k, v) # kvs) =
     (case TreeCache_put c k v of
        Inl e \<Rightarrow> Inl e
      | Inr c' \<Rightarrow> TreeCache_put_all c' kvs)"

definition TreeCache_present :: "('k, 'v) TreeCache \<Rightarrow> 'k \<Rightarrow> bool" where
  "TreeCache_present c k \<longleftrightarrow> fst (TreeCache_get c k) \<noteq> None"

text \<open>The second scenario of the LRU property: the puts of \<open>kvs\<close> into an empty cache
  of capacity \<open>c\<close>, a \<open>get\<close> of the first key put, then the put of one more entry.\<close>

definition get_oldest_then_put ::
  "nat \<Rightarrow> ('k \<times> 'v) list \<Rightarrow> 'k \<Rightarrow> 'v \<Rightarrow> fault + ('k, 'v) TreeCache" where
  "get_oldest_then_put c kvs k v =
     (case TreeCache_put_all (TreeCache_new c) kvs of
        Inl e \<Rightarrow> Inl e
      | Inr s \<Rightarrow> TreeCache_put (snd (TreeCache_get s (fst (hd kvs)))) k v)"

text \<open>Stand-ins for examples of the adapter: a tree state that counts the calls of
  \<open>put_value_set\<close>, a \<open>put_value_set\<close> that returns a root computed from the keys of
  the batch and no node writes, and an adapter with one pending entry.\<close>

definition counting_put_value_set :: "(nat, unit) put_value_set" where
  "counting_put_value_set t us ver base_root base_version =
     Inr (\<lparr>new_root_hash = pad_hash (concat (map (\<lambda>(k, v). hash_bytes k) us)),
           node_batch = []\<rparr>, Suc t)"

definition example_adapter :: "nat XookAdapter" where
  "example_adapter = XookAdapter_put pad_hash (XookAdapter_new 0) [0x6B] zero_hash 3"

section \<open>Key path encoding: results\<close>

lemma NibblePath_from_bytes_size:
  "NibblePath_size (NibblePath_from_bytes b n) = n"
  by (simp add: NibblePath_from_bytes_def NibblePath_size_def Let_def)

lemma NibblePath_from_bytes_length:
  "length (path_bytes (NibblePath_from_bytes b n))
     = min (length b) (((n + 1) mod 2 ^ 64) div 2)"
  by (auto simp add: NibblePath_from_bytes_def Let_def min_def)

lemma NibblePath_get_nibble_in_bounds:
  assumes "n + 1 < 2 ^ 64" and "(n + 1) div 2 \<le> length b" and "i < n"
  shows "\<exists>v. NibblePath_get_nibble (NibblePath_from_bytes b n) i = Inr v"
proof -
  have "i div 2 < (n + 1) div 2" using assms(3) by arith
  hence "i div 2 < length (path_bytes (NibblePath_from_bytes b n))"
    using assms(1,2) by (simp add: NibblePath_from_bytes_length)
  moreover have "nibble_count (NibblePath_from_bytes b n) = n"
    by (simp add: NibblePath_from_bytes_def Let_def)
  ultimately show ?thesis using assms(3)
    by (simp add: NibblePath_get_nibble_def Let_def)
qed

text \<open>
  Claim C10. For every byte vector \<open>b\<close> and nibble count \<open>n\<close>, the path
  \<open>from_bytes(b, n)\<close> has size \<open>n\<close> and every \<open>get_nibble(i)\<close> with \<open>i < n\<close> reads
  inside the stored byte vector, also when \<open>b\<close> has fewer than \<open>(n + 1) / 2\<close> bytes.
  The code does not do that: \<open>from_bytes\<close> stores a short input unpadded, so the
  path built from the empty vector with nibble count 2 has size 2 and no stored byte,
  and \<open>get_nibble(0)\<close> passes the range check and reads \<open>bytes_[0]\<close> of an empty
  vector.
\<close>

theorem NibblePath_short_input_reads_out_of_bounds:
  "NibblePath_size (NibblePath_from_bytes [] 2) = 2
   \<and> path_bytes (NibblePath_from_bytes [] 2) = []
   \<and> NibblePath_get_nibble (NibblePath_from_bytes [] 2) 0 = Inl OutOfBounds"
  by (simp add: NibblePath_from_bytes_def NibblePath_size_def NibblePath_get_nibble_def)

section \<open>Words, bytes and the sparse bitmap: lemmas\<close>

subsection \<open>Versions and child records\<close>

lemma hash_bytes_length: "length (hash_bytes h) = 64"
  using hash_bytes [of h] by simp

lemma version_le_bytes_length: "length (version_le_bytes v) = 8"
  by (simp add: version_le_bytes_def)

lemma upt8: "[0..<8] = [0,1,2,3,4,5,6,7]"
  by (simp add: upt_rec)

lemma bit_version_byte:
  "bit (ucast (ucast (drop_bit n (v :: u64) AND 0xFF) :: u8) :: u64) j \<longleftrightarrow> j < 8 \<and> bit v (n + j)"
proof -
  have m: "(0xFF :: u64) = mask 8" by (simp add: mask_eq_exp_minus_1)
  show ?thesis unfolding m by (auto simp: bit_simps)
qed

lemma read_version_le_bytes:
  "read_version_le (pre @ version_le_bytes v @ post) (length pre) = v"
proof (rule bit_word_eqI)
  fix k assume k: "k < LENGTH(64)"
  have c: "k < 8 \<or> (8 \<le> k \<and> k < 16) \<or> (16 \<le> k \<and> k < 24) \<or> (24 \<le> k \<and> k < 32)
      \<or> (32 \<le> k \<and> k < 40) \<or> (40 \<le> k \<and> k < 48) \<or> (48 \<le> k \<and> k < 56) \<or> (56 \<le> k \<and> k < 64)"
    using k by simp arith
  have "bit (read_version_le (pre @ version_le_bytes v @ post) (length pre)) k
      = ((k < 8 \<and> bit v k) \<or> (8 \<le> k \<and> k - 8 < 8 \<and> bit v (8 + (k - 8)))
         \<or> (16 \<le> k \<and> k - 16 < 8 \<and> bit v (16 + (k - 16)))
         \<or> (24 \<le> k \<and> k - 24 < 8 \<and> bit v (24 + (k - 24)))
         \<or> (32 \<le> k \<and> k - 32 < 8 \<and> bit v (32 + (k - 32)))
         \<or> (40 \<le> k \<and> k - 40 < 8 \<and> bit v (40 + (k - 40)))
         \<or> (48 \<le> k \<and> k - 48 < 8 \<and> bit v (48 + (k - 48)))
         \<or> (56 \<le> k \<and> k - 56 < 8 \<and> bit v (56 + (k - 56))))"
    unfolding read_version_le_def version_le_bytes_def upt8
    using k bit_version_byte [of 0 v k]
    by (simp add: nth_append bit_or_iff bit_push_bit_iff bit_version_byte)
  also have "\<dots> = bit v k"
    using c by (elim disjE) auto
  finally show "bit (read_version_le (pre @ version_le_bytes v @ post) (length pre)) k = bit v k" .
qed

lemma child_record_length: "length (child_record c) = 72"
  by (simp add: child_record_def hash_bytes_length version_le_bytes_length)

lemma concat_child_records_length:
  "length (concat (map child_record cs)) = 72 * length cs"
  by (induction cs) (simp_all add: child_record_length)

lemma read_children_Some_iff:
  "read_children bytes pos n acc \<noteq> None \<longleftrightarrow> n = 0 \<or> pos + 72 * n \<le> length bytes"
  by (induction n arbitrary: pos acc) (auto simp: Let_def)

lemma read_children_pos:
  "read_children bytes pos n acc = Some (p, cs) \<Longrightarrow> p = pos + 72 * n \<and> length cs = length acc + n"
proof (induction n arbitrary: pos acc)
  case 0
  then show ?case by simp
next
  case (Suc n)
  from Suc.prems have "read_children bytes (pos + 72) n
      (acc @ [\<lparr>hash = bytes_to_hash (take 64 (drop pos bytes)),
                version = read_version_le bytes (pos + 64)\<rparr>]) = Some (p, cs)"
    by (simp add: Let_def split: if_splits)
  from Suc.IH [OF this] show ?case by simp
qed

lemma read_children_serialized:
  "read_children (pre @ concat (map child_record cs) @ post) (length pre) (length cs) acc
     = Some (length pre + 72 * length cs, acc @ cs)"
proof (induction cs arbitrary: pre acc)
  case Nil
  then show ?case by simp
next
  case (Cons c cs)
  let ?bytes = "pre @ concat (map child_record (c # cs)) @ post"
  have h: "bytes_to_hash (take 64 (drop (length pre) ?bytes)) = hash c"
    by (simp add: child_record_def hash_bytes_length hash_bytes_inverse)
  have "?bytes = (pre @ hash_bytes (hash c)) @ version_le_bytes (ChildInfo.version c)
                  @ (concat (map child_record cs) @ post)"
    by (simp add: child_record_def)
  hence v: "read_version_le ?bytes (length pre + 64) = ChildInfo.version c"
    using read_version_le_bytes [of "pre @ hash_bytes (hash c)" "ChildInfo.version c"
        "concat (map child_record cs) @ post"]
    by (simp add: hash_bytes_length)
  have r: "?bytes = (pre @ child_record c) @ concat (map child_record cs) @ post"
    by simp
  have "read_children ?bytes (length pre) (length (c # cs)) acc
      = read_children ?bytes (length pre + 72) (length cs) (acc @ [c])"
    using h v by (cases c) (simp add: child_record_length concat_child_records_length Let_def)
  also have "\<dots> = Some (length pre + 72 + 72 * length cs, (acc @ [c]) @ cs)"
    using Cons.IH [of "pre @ child_record c" "acc @ [c]"]
    unfolding r by (simp add: child_record_length)
  finally show ?case by simp
qed

subsection \<open>The mask bytes and the round trip\<close>

lemma mask_le_bytes:
  "(ucast (ucast (m AND 0xFF) :: u8) OR push_bit 8 (ucast (ucast (drop_bit 8 m AND 0xFF) :: u8)) :: u16) = (m :: u16)"
proof -
  have m: "(0xFF :: u16) = mask 8" by (simp add: mask_eq_exp_minus_1)
  show ?thesis unfolding m
    by (rule bit_word_eqI) (auto simp: bit_simps)
qed

lemma le_mask_eq_framed_mask:
  "(ucast (b1 :: u8) OR push_bit 8 (ucast (b2 :: u8)) :: u16) = of_nat (unat b1 + 256 * unat b2)"
proof -
  have "(ucast b1 :: u16) AND push_bit 8 (ucast b2) = 0"
    by (rule bit_word_eqI) (auto simp: bit_simps dest: bit_imp_le_length)
  hence "(ucast b1 OR push_bit 8 (ucast b2) :: u16) = ucast b1 + push_bit 8 (ucast b2)"
    by (simp add: disjunctive_add_eq_or)
  also have "\<dots> = of_nat (unat b1 + 256 * unat b2)"
    by (simp add: push_bit_eq_mult)
  finally show ?thesis .
qed

lemma InternalNode_serialize_canonical_eq:
  "InternalNode_serialize_canonical n =
     [ucast (raw_mask (bitmap n) AND 0xFF), ucast (drop_bit 8 (raw_mask (bitmap n)) AND 0xFF)]
     @ concat (map child_record (children n))"
  by (simp add: InternalNode_serialize_canonical_def Let_def child_record_def [abs_def])

lemma InternalNode_serialize_canonical_length:
  "length (InternalNode_serialize_canonical n) = 2 + 72 * length (children n)"
  by (simp add: InternalNode_serialize_canonical_eq concat_child_records_length)

lemma LeafNode_serialize_canonical_length:
  "length (LeafNode_serialize_canonical l) = 128"
  by (simp add: LeafNode_serialize_canonical_def hash_bytes_length)

lemma deserialize_Leaf:
  "deserialize_node_from_bytes (serialize_node_with_prefix (Leaf l)) = Some (Leaf l)"
proof -
  have "bytes_to_hash (take 64 (hash_bytes (account_key l) @ hash_bytes (value_hash l))) = account_key l"
    by (simp add: hash_bytes_length hash_bytes_inverse)
  moreover have "bytes_to_hash (take 64 (drop 64 (hash_bytes (account_key l) @ hash_bytes (value_hash l)))) = value_hash l"
    by (simp add: hash_bytes_length hash_bytes_inverse)
  ultimately show ?thesis
    by (cases l) (simp add: deserialize_node_from_bytes_def LeafNode_serialize_canonical_def
        hash_bytes_length)
qed

lemma deserialize_Internal:
  assumes "sparse_map_sized n"
  shows "deserialize_node_from_bytes (serialize_node_with_prefix (Internal n)) = Some (Internal n)"
proof -
  let ?m = "raw_mask (bitmap n)"
  let ?pre = "[0x01, ucast (?m AND 0xFF), ucast (drop_bit 8 ?m AND 0xFF)] :: Bytes"
  let ?bytes = "serialize_node_with_prefix (Internal n)"
  have b: "?bytes = ?pre @ concat (map child_record (children n)) @ []"
    by (simp add: InternalNode_serialize_canonical_eq)
  have len: "length ?bytes = 3 + 72 * length (children n)"
    by (simp add: InternalNode_serialize_canonical_length)
  have m: "(ucast (?bytes ! 1) OR push_bit 8 (ucast (?bytes ! 2)) :: u16) = ?m"
    unfolding b by (simp add: mask_le_bytes)
  have r: "read_children ?bytes 3 (popcount16 ?m) [] = Some (3 + 72 * length (children n), children n)"
    using read_children_serialized [of ?pre "children n" "[]" "[]"] assms
    unfolding b sparse_map_sized_def by (simp add: numeral_3_eq_3)
  have bm: "\<lparr>raw_mask = ?m\<rparr> = bitmap n" by (cases "bitmap n") simp
  have "?bytes \<noteq> []" "?bytes ! 0 = 0x01" "\<not> length ?bytes < 3"
    using len by simp_all
  thus ?thesis
    unfolding deserialize_node_from_bytes_def Let_def m
    using r len bm by (cases n) (simp add: SparseBitmap_total_children_def)
qed

subsection \<open>Strict framing\<close>

lemma deserialize_Some_iff_valid_framed:
  "deserialize_node_from_bytes b \<noteq> None \<longleftrightarrow> valid_framed b"
proof (cases "b = []")
  case True
  then show ?thesis by (simp add: deserialize_node_from_bytes_def valid_framed_def)
next
  case False
  note ne = this
  show ?thesis
  proof (cases "b ! 0 = 0x01")
    case True
    let ?k = "popcount16 (framed_mask b)"
    have fm: "(ucast (b ! Suc 0) OR push_bit 8 (ucast (b ! 2)) :: u16) = framed_mask b"
      by (simp add: le_mask_eq_framed_mask framed_mask_def)
    show ?thesis
    proof (cases "length b < 3")
      case True
      with ne \<open>b ! 0 = 0x01\<close> show ?thesis
        by (simp add: deserialize_node_from_bytes_def valid_framed_def)
    next
      case False
      show ?thesis
      proof (cases "read_children b 3 ?k []")
        case None
        hence "\<not> (?k = 0 \<or> 3 + 72 * ?k \<le> length b)"
          using read_children_Some_iff [of b 3 ?k "[]"] by simp
        with None ne \<open>b ! 0 = 0x01\<close> False show ?thesis
          by (simp add: deserialize_node_from_bytes_def valid_framed_def Let_def fm
              SparseBitmap_total_children_def)
      next
        case (Some r)
        obtain p cs where r: "r = (p, cs)" by (cases r)
        have p: "p = 3 + 72 * ?k" using read_children_pos [of b 3 ?k "[]" p cs] Some r by simp
        with Some r ne \<open>b ! 0 = 0x01\<close> False show ?thesis
          by (auto simp add: deserialize_node_from_bytes_def valid_framed_def Let_def fm
              SparseBitmap_total_children_def)
      qed
    qed
  next
    case False
    with ne show ?thesis
      by (simp add: deserialize_node_from_bytes_def valid_framed_def Let_def)
  qed
qed

lemma valid_framed_length:
  "valid_framed b \<Longrightarrow> length b = 129 \<or> (\<exists>k. length b = 3 + 72 * k)"
  by (auto simp: valid_framed_def split: if_splits)

lemma valid_framed_neighbour:
  assumes "valid_framed b" and "length b' = length b + 1 \<or> length b' + 1 = length b"
  shows "\<not> valid_framed b'"
proof
  assume "valid_framed b'"
  from valid_framed_length [OF assms(1)] valid_framed_length [OF this] assms(2)
  show False by (elim disjE exE) arith+
qed

subsection \<open>The bitmap in terms of bits\<close>

lemma SparseBitmap_exists_iff_bit:
  "SparseBitmap_exists b n \<longleftrightarrow> bit (raw_mask b) (unat n)"
proof -
  have "drop_bit (unat n) (ucast (raw_mask b) :: 32 word) AND 1 \<noteq> 0
        \<longleftrightarrow> bit (ucast (raw_mask b) :: 32 word) (unat n)"
    by (simp add: bit_iff_and_drop_bit_eq_1 and_one_eq mod_2_eq_odd bit_iff_odd_drop_bit)
  also have "\<dots> \<longleftrightarrow> bit (raw_mask b) (unat n)"
    by (auto simp: bit_simps dest: bit_imp_le_length)
  finally show ?thesis by (simp add: SparseBitmap_exists_def)
qed

lemma mask_before_eq:
  "k \<le> 16 \<Longrightarrow> (ucast (push_bit k (1 :: 32 word) - 1) :: u16) = mask k"
proof -
  assume k: "k \<le> 16"
  have a: "push_bit k (1 :: 32 word) - 1 = mask k"
    by (simp add: mask_eq_exp_minus_1)
  have "(ucast (mask k :: 32 word) :: u16) = mask k"
    by (rule bit_word_eqI) (use k in \<open>auto simp: bit_simps\<close>)
  thus ?thesis by (simp only: a)
qed

lemma filter_upt_less:
  "k \<le> n \<Longrightarrow> filter (\<lambda>i. P i \<and> i < k) [0..<n] = filter P [0..<k]"
proof -
  assume "k \<le> n"
  hence "[0..<n] = [0..<k] @ [k..<n]" by (metis le_add_diff_inverse upt_add_eq_append zero_le)
  moreover have "filter (\<lambda>i. P i \<and> i < k) [0..<k] = filter P [0..<k]"
    by (rule filter_cong) auto
  moreover have "filter (\<lambda>i. P i \<and> i < k) [k..<n] = []"
    by (simp add: filter_empty_conv)
  ultimately show ?thesis by simp
qed

lemma popcount16_and_mask:
  "k \<le> 16 \<Longrightarrow> popcount16 (m AND mask k) = length (filter (bit m) [0..<k])"
proof -
  assume k: "k \<le> 16"
  have "filter (bit (m AND mask k)) [0..<16] = filter (\<lambda>i. bit m i \<and> i < k) [0..<16]"
    by (rule filter_cong) (auto simp: bit_simps)
  thus ?thesis unfolding popcount16_def by (simp only: filter_upt_less [OF k])
qed

lemma popcount16_le: "popcount16 m \<le> 16"
  unfolding popcount16_def using length_filter_le [of "bit m" "[0..<16]"] by simp

lemma SparseBitmap_get_index_eq:
  assumes "n < 16"
  shows "unat (SparseBitmap_get_index b n) = length (filter (bit (raw_mask b)) [0..<unat n])"
proof -
  have k: "unat n \<le> 16" using assms by (simp add: word_less_nat_alt)
  have "popcount16 (raw_mask b AND mask (unat n)) \<le> 16" by (rule popcount16_le)
  hence "unat (of_nat (popcount16 (raw_mask b AND mask (unat n))) :: u8)
        = popcount16 (raw_mask b AND mask (unat n))"
    by (simp add: unat_of_nat)
  thus ?thesis
    unfolding SparseBitmap_get_index_def Let_def mask_before_eq [OF k]
    by (simp only: popcount16_and_mask [OF k])
qed

lemma bit_SparseBitmap_set:
  assumes "n < 16"
  shows "bit (raw_mask (SparseBitmap_set b n)) i \<longleftrightarrow> bit (raw_mask b) i \<or> i = unat n"
proof -
  have k: "unat n < 16" using assms by (simp add: word_less_nat_alt)
  have "bit (ucast (push_bit (unat n) (1 :: 32 word)) :: u16) i \<longleftrightarrow> i = unat n"
    using k by (auto simp: bit_simps)
  thus ?thesis by (simp add: SparseBitmap_set_def bit_or_iff)
qed

subsection \<open>Counting the set bits below a position\<close>

lemma rank_mono:
  "a \<le> b \<Longrightarrow> length (filter P [0..<a]) \<le> length (filter P [0..<b])"
proof -
  assume "a \<le> b"
  hence "[0..<b] = [0..<a] @ [a..<b]" by (metis le_add_diff_inverse upt_add_eq_append zero_le)
  thus ?thesis by simp
qed

lemma rank_less:
  assumes "P m" and "m < b"
  shows "length (filter P [0..<m]) < length (filter P [0..<b])"
proof -
  have "length (filter P [0..<Suc m]) \<le> length (filter P [0..<b])"
    using assms(2) by (intro rank_mono) simp
  thus ?thesis using assms(1) by simp
qed

lemma rank_inj:
  assumes "P m" and "P n" and "m \<noteq> n"
  shows "length (filter P [0..<m]) \<noteq> length (filter P [0..<n])"
proof (cases "m < n")
  case True
  from rank_less [of P m n] assms(1) True show ?thesis by simp
next
  case False
  hence "n < m" using assms(3) by simp
  from rank_less [of P n m] assms(2) this show ?thesis by simp
qed

lemma rank_insert:
  assumes "\<not> P n"
  shows "length (filter (\<lambda>i. P i \<or> i = n) [0..<m])
       = (if m \<le> n then length (filter P [0..<m]) else length (filter P [0..<m]) + 1)"
proof (induction m)
  case 0
  show ?case by simp
next
  case (Suc m)
  show ?case using Suc assms by (cases "m = n") auto
qed

lemma nth_insert_at:
  assumes "i \<le> length xs"
  shows "(take i xs @ [x] @ drop i xs) ! j
       = (if j < i then xs ! j else if j = i then x else xs ! (j - 1))"
proof -
  have l: "length (take i xs) = i" using assms by simp
  show ?thesis
  proof (cases "j < i")
    case True
    thus ?thesis using l by (simp add: nth_append)
  next
    case False
    show ?thesis
    proof (cases "j = i")
      case True
      thus ?thesis using l by (simp add: nth_append)
    next
      case False
      with \<open>\<not> j < i\<close> have "j > i" by simp
      then obtain d where d: "j = i + Suc d" by (metis less_iff_Suc_add add_Suc_right)
      have "(take i xs @ [x] @ drop i xs) ! j = drop i xs ! d"
        using l d by (simp add: nth_append)
      also have "\<dots> = xs ! (i + d)" using assms by simp
      finally show ?thesis using d by simp
    qed
  qed
qed

lemma valid_framed_serialize:
  assumes "well_formed_node N"
  shows "valid_framed (serialize_node_with_prefix N)"
proof -
  have "deserialize_node_from_bytes (serialize_node_with_prefix N) = Some N"
  proof (cases N)
    case (Internal n)
    with assms have "sparse_map_sized n" by simp
    from deserialize_Internal [OF this] Internal show ?thesis by (simp only:)
  next
    case (Leaf l)
    from deserialize_Leaf [of l] Leaf show ?thesis by (simp only:)
  qed
  thus ?thesis
    using deserialize_Some_iff_valid_framed [of "serialize_node_with_prefix N"] by simp
qed

subsection \<open>Little-endian bytes and the canonical layout\<close>

lemma byte_of_word_eq:
  "(ucast (drop_bit n (w :: 'a::len word) AND 0xFF) :: u8) = of_nat (unat w div 2 ^ n mod 256)"
proof -
  have m: "(0xFF :: 'a word) = mask 8" by (simp add: mask_eq_exp_minus_1)
  have "(ucast (drop_bit n w AND 0xFF) :: u8) = ucast (drop_bit n w)"
    unfolding m
  proof (rule bit_word_eqI)
    fix k assume "k < LENGTH(8)"
    have "bit w (n + k) \<Longrightarrow> k < LENGTH('a)"
      by (drule bit_imp_le_length) simp
    thus "bit (ucast (drop_bit n w AND mask 8) :: u8) k = bit (ucast (drop_bit n w) :: u8) k"
      using \<open>k < LENGTH(8)\<close> by (auto simp: bit_simps)
  qed
  also have "\<dots> = of_nat (unat (drop_bit n w))"
    by simp
  also have "unat (drop_bit n w) = unat w div 2 ^ n"
    by (subst unat_drop_bit_eq) (rule drop_bit_eq_div)
  also have "(of_nat (unat w div 2 ^ n) :: u8) = of_nat (unat w div 2 ^ n mod 256)"
    by (rule word_unat_eq_iff [THEN iffD2]) (simp add: unat_of_nat)
  finally show ?thesis .
qed

lemma version_le_bytes_eq_le_bytes:
  "version_le_bytes v = le_bytes 8 (unat v)"
proof -
  have "(256 :: nat) ^ i = 2 ^ (i * 8)" for i
  proof -
    have "(256 :: nat) ^ i = (2 ^ 8) ^ i" by simp
    also have "\<dots> = 2 ^ (8 * i)" by (simp only: power_mult)
    finally show ?thesis by (simp only: mult.commute)
  qed
  thus ?thesis
    unfolding version_le_bytes_def le_bytes_def by (simp only: byte_of_word_eq)
qed

lemma mask_le_bytes_eq_le_bytes:
  "[ucast (m AND 0xFF), ucast (drop_bit 8 m AND 0xFF)] = le_bytes 2 (unat (m :: u16))"
proof -
  have "(ucast (m AND 0xFF) :: u8) = of_nat (unat m mod 256)"
    using byte_of_word_eq [of 0 m] by simp
  moreover have "(ucast (drop_bit 8 m AND 0xFF) :: u8) = of_nat (unat m div 256 mod 256)"
    using byte_of_word_eq [of 8 m] by simp
  ultimately show ?thesis
    by (simp add: le_bytes_def upt_rec)
qed

lemma map_rank_filter:
  "map (\<lambda>i. length (filter P [0..<i])) (filter P [0..<k]) = [0..<length (filter P [0..<k])]"
  by (induction k) simp_all

lemma u8_less_16_iff: "(n :: u8) < 16 \<longleftrightarrow> unat n < 16"
  by (simp add: word_less_nat_alt)

lemma InternalNode_get_child_present:
  assumes "sparse_map_sized node" and "n < 16" and "SparseBitmap_exists (bitmap node) n"
  shows "InternalNode_get_child node n
       = Inr (Some (children node ! length (filter (bit (raw_mask (bitmap node))) [0..<unat n])))"
    and "length (filter (bit (raw_mask (bitmap node))) [0..<unat n]) < length (children node)"
proof -
  let ?P = "bit (raw_mask (bitmap node))"
  have k: "unat n < 16" using assms(2) by (simp add: u8_less_16_iff)
  have p: "?P (unat n)" using assms(3) by (simp add: SparseBitmap_exists_iff_bit)
  have "length (filter ?P [0..<unat n]) < length (filter ?P [0..<16])"
    using rank_less [of ?P "unat n" 16] p k by simp
  thus b: "length (filter ?P [0..<unat n]) < length (children node)"
    using assms(1) by (simp add: sparse_map_sized_def popcount16_def)
  show "InternalNode_get_child node n = Inr (Some (children node ! length (filter ?P [0..<unat n])))"
    using b assms(3) by (simp add: InternalNode_get_child_def Let_def SparseBitmap_get_index_eq [OF assms(2)])
qed

lemma present_nibbles_eq:
  "present_nibbles node = map of_nat (filter (bit (raw_mask (bitmap node))) [0..<16])"
proof -
  have "filter (SparseBitmap_exists (bitmap node) \<circ> of_nat) [0..<16]
      = filter (bit (raw_mask (bitmap node))) [0..<16]"
    by (rule filter_cong) (auto simp: SparseBitmap_exists_iff_bit unat_of_nat)
  thus ?thesis by (simp add: present_nibbles_def filter_map)
qed

lemma descriptor_layout_present:
  assumes "sparse_map_sized node" and "i < 16" and "bit (raw_mask (bitmap node)) i"
  shows "descriptor_layout node (of_nat i)
       = child_record (children node ! length (filter (bit (raw_mask (bitmap node))) [0..<i]))"
proof -
  have u: "unat (of_nat i :: u8) = i" using assms(2) by (simp add: unat_of_nat)
  have l: "(of_nat i :: u8) < 16" using assms(2) u by (simp add: u8_less_16_iff)
  have e: "SparseBitmap_exists (bitmap node) (of_nat i)"
    using assms(3) u by (simp add: SparseBitmap_exists_iff_bit)
  from InternalNode_get_child_present(1) [OF assms(1) l e] u
  show ?thesis
    by (simp add: descriptor_layout_def child_record_def version_le_bytes_eq_le_bytes)
qed

lemma canonical_layout_eq:
  assumes "sparse_map_sized node"
  shows "InternalNode_serialize_canonical node = canonical_layout node"
proof -
  let ?P = "bit (raw_mask (bitmap node))"
  let ?cs = "children node"
  have len: "length ?cs = length (filter ?P [0..<16])"
    using assms by (simp add: sparse_map_sized_def popcount16_def)
  have "map (descriptor_layout node) (present_nibbles node)
      = map (\<lambda>i. child_record (?cs ! length (filter ?P [0..<i]))) (filter ?P [0..<16])"
    unfolding present_nibbles_eq map_map
    by (rule map_cong) (auto simp: descriptor_layout_present [OF assms])
  also have "\<dots> = map child_record (map ((!) ?cs) (map (\<lambda>i. length (filter ?P [0..<i])) (filter ?P [0..<16])))"
    by (simp add: comp_def)
  also have "\<dots> = map child_record (map ((!) ?cs) [0..<length ?cs])"
    by (simp only: map_rank_filter len)
  also have "\<dots> = map child_record ?cs"
    by (simp only: map_nth)
  finally show ?thesis
    by (simp add: canonical_layout_def InternalNode_serialize_canonical_eq
        mask_le_bytes_eq_le_bytes [symmetric])
qed

subsection \<open>Insertion and replacement in the dense list\<close>

lemma child_at_eq:
  assumes "n < 16"
  shows "child_at node n =
     (if bit (raw_mask (bitmap node)) (unat n)
      then Some (children node ! length (filter (bit (raw_mask (bitmap node))) [0..<unat n]))
      else None)"
proof -
  have k: "unat n \<le> 16" using assms by (simp add: u8_less_16_iff)
  have "(2 ^ unat n - 1 :: u16) = mask (unat n)" by (simp add: mask_eq_exp_minus_1)
  thus ?thesis by (simp add: child_at_def popcount16_and_mask [OF k])
qed

lemma insert_rank:
  fixes P :: "nat \<Rightarrow> bool" and k :: nat and cs :: "'a list" and x :: 'a
  defines "r \<equiv> \<lambda>j. length (filter P [0..<j])"
  assumes np: "\<not> P k" and len: "length cs = r 16" and k: "k < 16"
  defines "r' \<equiv> \<lambda>j. length (filter (\<lambda>i. P i \<or> i = k) [0..<j])"
  defines "cs' \<equiv> take (r k) cs @ [x] @ drop (r k) cs"
  shows "r' k = r k" and "r k \<le> length cs" and "length cs' = r' 16" and "cs' ! r' k = x"
    and "\<And>j. j < 16 \<Longrightarrow> j \<noteq> k \<Longrightarrow> P j \<Longrightarrow> cs' ! r' j = cs ! r j"
proof -
  have r': "r' j = (if j \<le> k then r j else r j + 1)" for j
    unfolding r'_def r_def using rank_insert [of P k j] np by simp
  show rk: "r' k = r k" by (simp add: r')
  show le: "r k \<le> length cs"
    unfolding len r_def using k by (intro rank_mono) simp
  show "length cs' = r' 16"
    using k le by (simp add: cs'_def r' len)
  show "cs' ! r' k = x"
    unfolding cs'_def rk using nth_insert_at [OF le, of x "r k"] by simp
  show "cs' ! r' j = cs ! r j" if "j < 16" "j \<noteq> k" "P j" for j
  proof (cases "j < k")
    case True
    hence "r j < r k" unfolding r_def using that(3) rank_less [of P j k] by simp
    thus ?thesis
      unfolding cs'_def using nth_insert_at [OF le, of x "r j"] True by (simp add: r')
  next
    case False
    hence jk: "k < j" using that(2) by simp
    hence "r k \<le> r j" unfolding r_def by (intro rank_mono) simp
    thus ?thesis
      unfolding cs'_def using nth_insert_at [OF le, of x "r j + 1"] jk by (simp add: r')
  qed
qed

lemma unat_u8_inj: "(m :: u8) \<noteq> n \<Longrightarrow> unat m \<noteq> unat n"
  by (simp add: word_unat_eq_iff)

lemma set_child_replace:
  assumes sz: "sparse_map_sized node" and n: "n < 16"
    and ex: "SparseBitmap_exists (bitmap node) n"
  shows "\<exists>node'. InternalNode_set_child node n h v = Inr node' \<and> sparse_map_sized node'
           \<and> (\<forall>m. m < 16 \<longrightarrow> child_at node' m
                  = (if m = n then Some \<lparr>hash = h, version = v\<rparr> else child_at node m))"
proof -
  let ?P = "bit (raw_mask (bitmap node))"
  let ?r = "\<lambda>j. length (filter ?P [0..<j])"
  let ?info = "\<lparr>hash = h, version = v\<rparr>"
  let ?node' = "node\<lparr>children := (children node)[?r (unat n) := ?info]\<rparr>"
  have p: "?P (unat n)" using ex by (simp add: SparseBitmap_exists_iff_bit)
  have idx: "?r (unat n) < length (children node)"
    by (rule InternalNode_get_child_present(2) [OF sz n ex])
  have 1: "InternalNode_set_child node n h v = Inr ?node'"
    using ex idx by (simp add: InternalNode_set_child_def Let_def SparseBitmap_get_index_eq [OF n])
  have 2: "sparse_map_sized ?node'"
    using sz by (simp add: sparse_map_sized_def)
  have 3: "child_at ?node' m = (if m = n then Some ?info else child_at node m)" if m: "m < 16" for m
  proof (cases "m = n")
    case True
    thus ?thesis using p idx by (simp add: child_at_eq [OF n])
  next
    case False
    show ?thesis
    proof (cases "?P (unat m)")
      case True
      have "?r (unat m) \<noteq> ?r (unat n)"
        using rank_inj [of ?P "unat m" "unat n"] True p unat_u8_inj [OF False] by simp
      thus ?thesis using False True by (simp add: child_at_eq [OF m])
    next
      case False
      thus ?thesis using \<open>m \<noteq> n\<close> by (simp add: child_at_eq [OF m])
    qed
  qed
  from 1 2 3 show ?thesis by blast
qed

lemma set_child_insert:
  assumes sz: "sparse_map_sized node" and n: "n < 16"
    and ex: "\<not> SparseBitmap_exists (bitmap node) n"
  shows "\<exists>node'. InternalNode_set_child node n h v = Inr node' \<and> sparse_map_sized node'
           \<and> (\<forall>m. m < 16 \<longrightarrow> child_at node' m
                  = (if m = n then Some \<lparr>hash = h, version = v\<rparr> else child_at node m))"
proof -
  let ?P = "bit (raw_mask (bitmap node))"
  let ?k = "unat n"
  let ?r = "\<lambda>j. length (filter ?P [0..<j])"
  let ?bm = "SparseBitmap_set (bitmap node) n"
  let ?P' = "bit (raw_mask ?bm)"
  let ?r' = "\<lambda>j. length (filter (\<lambda>i. ?P i \<or> i = ?k) [0..<j])"
  let ?info = "\<lparr>hash = h, version = v\<rparr>"
  let ?cs = "children node"
  let ?cs' = "take (?r ?k) ?cs @ [?info] @ drop (?r ?k) ?cs"
  let ?node' = "\<lparr>bitmap = ?bm, children = ?cs'\<rparr>"
  have k: "?k < 16" using n by (simp add: u8_less_16_iff)
  have np: "\<not> ?P ?k" using ex by (simp add: SparseBitmap_exists_iff_bit)
  have len: "length ?cs = ?r 16" using sz by (simp add: sparse_map_sized_def popcount16_def)
  have P': "?P' = (\<lambda>i. ?P i \<or> i = ?k)"
    by (rule ext) (rule bit_SparseBitmap_set [OF n])
  note ir = insert_rank(1,2) [where P = ?P and k = ?k and cs = ?cs, OF np len k]
    insert_rank(3,4,5) [where P = ?P and k = ?k and cs = ?cs and x = ?info, OF np len k]
  have idx: "unat (SparseBitmap_get_index ?bm n) = ?r ?k"
    using ir(1) by (simp add: SparseBitmap_get_index_eq [OF n] P')
  have 1: "InternalNode_set_child node n h v = Inr ?node'"
    using ex ir(2) by (simp add: InternalNode_set_child_def Let_def idx)
  have 2: "sparse_map_sized ?node'"
    using ir(3) by (simp add: sparse_map_sized_def popcount16_def P')
  have 3: "child_at ?node' m = (if m = n then Some ?info else child_at node m)" if m: "m < 16" for m
  proof (cases "m = n")
    case True
    thus ?thesis using ir(4) by (simp add: child_at_eq [OF n] P')
  next
    case False
    hence ne: "unat m \<noteq> ?k" by (rule unat_u8_inj)
    have mk: "unat m < 16" using m by (simp add: u8_less_16_iff)
    show ?thesis
    proof (cases "?P (unat m)")
      case True
      from ir(5) [OF mk ne True] True False ne show ?thesis
        by (simp add: child_at_eq [OF m] P')
    next
      case False
      thus ?thesis using \<open>m \<noteq> n\<close> ne by (simp add: child_at_eq [OF m] P')
    qed
  qed
  from 1 2 3 show ?thesis by blast
qed

lemma set_child_step:
  assumes "sparse_map_sized node" and "n < 16"
  shows "\<exists>node'. InternalNode_set_child node n h v = Inr node' \<and> sparse_map_sized node'
           \<and> (\<forall>m. m < 16 \<longrightarrow> child_at node' m
                  = (if m = n then Some \<lparr>hash = h, version = v\<rparr> else child_at node m))"
  using set_child_replace [OF assms] set_child_insert [OF assms]
  by (cases "SparseBitmap_exists (bitmap node) n") blast+

lemma set_children_run:
  assumes "sparse_map_sized node" and "list_all (\<lambda>call. fst call < 16) calls"
  shows "\<exists>node'. set_children node calls = Inr node' \<and> sparse_map_sized node'
           \<and> (\<forall>m. m < 16 \<longrightarrow> child_at node' m
                  = (case latest_child calls m of Some c \<Rightarrow> Some c | None \<Rightarrow> child_at node m))"
  using assms
proof (induction calls arbitrary: node)
  case Nil
  then show ?case by simp
next
  case (Cons call calls)
  obtain n h v where call: "call = (n, h, v)" by (cases call)
  from Cons.prems call have n: "n < 16" and rest: "list_all (\<lambda>call. fst call < 16) calls"
    by simp_all
  from set_child_step [OF Cons.prems(1) n, of h v]
  obtain node1 where s1: "InternalNode_set_child node n h v = Inr node1"
    and sz1: "sparse_map_sized node1"
    and c1: "\<And>m. m < 16 \<Longrightarrow> child_at node1 m
                  = (if m = n then Some \<lparr>hash = h, version = v\<rparr> else child_at node m)"
    by blast
  from Cons.IH [OF sz1 rest]
  obtain node2 where s2: "set_children node1 calls = Inr node2"
    and sz2: "sparse_map_sized node2"
    and c2: "\<And>m. m < 16 \<Longrightarrow> child_at node2 m
                  = (case latest_child calls m of Some c \<Rightarrow> Some c | None \<Rightarrow> child_at node1 m)"
    by blast
  have "set_children node (call # calls) = Inr node2"
    using s1 s2 call by simp
  moreover have "child_at node2 m
       = (case latest_child (call # calls) m of Some c \<Rightarrow> Some c | None \<Rightarrow> child_at node m)"
    if "m < 16" for m
    using c1 [OF that] c2 [OF that] call by (auto split: option.splits)
  ultimately show ?case using sz2 by blast
qed

lemma sparse_map_sized_new: "sparse_map_sized InternalNode_new"
  by (simp add: sparse_map_sized_def InternalNode_new_def SparseBitmap_new_def popcount16_def)

lemma child_at_new: "child_at InternalNode_new n = None"
  by (simp add: child_at_def InternalNode_new_def SparseBitmap_new_def)

section \<open>Canonical layout and the sparse child map: results\<close>

text \<open>
  Claim C4. For every internal node whose child list has one descriptor per set mask
  bit, \<open>serialize_canonical\<close> gives the mask in two little-endian bytes followed, for
  each present nibble in ascending order, by the 64 bytes of the hash and the eight
  little-endian bytes of the version of the child that \<open>get_child\<close> returns for that
  nibble; the total length is \<open>2 + popcount(mask) * (H + 8)\<close> with \<open>H = 64\<close>.
\<close>

theorem serialize_canonical_layout:
  assumes "sparse_map_sized node"
  shows "InternalNode_serialize_canonical node = canonical_layout node
       \<and> length (InternalNode_serialize_canonical node)
           = 2 + popcount16 (raw_mask (bitmap node)) * (64 + 8)
       \<and> list_all (\<lambda>n. length (descriptor_layout node n) = 64 + 8) (present_nibbles node)"
proof (intro conjI)
  show "InternalNode_serialize_canonical node = canonical_layout node"
    by (rule canonical_layout_eq [OF assms])
  show "length (InternalNode_serialize_canonical node)
           = 2 + popcount16 (raw_mask (bitmap node)) * (64 + 8)"
    using assms by (simp add: InternalNode_serialize_canonical_length sparse_map_sized_def)
  show "list_all (\<lambda>n. length (descriptor_layout node n) = 64 + 8) (present_nibbles node)"
    unfolding present_nibbles_eq list_all_iff
    by (auto simp: descriptor_layout_present [OF assms] child_record_length)
qed

theorem serialize_canonical_layout_witness:
  "sparse_map_sized
     \<lparr>bitmap = \<lparr>raw_mask = 6\<rparr>,
      children = [\<lparr>hash = zero_hash, version = 1\<rparr>, \<lparr>hash = zero_hash, version = 2\<rparr>]\<rparr>
   \<and> InternalNode_serialize_canonical
        \<lparr>bitmap = \<lparr>raw_mask = 6\<rparr>,
         children = [\<lparr>hash = zero_hash, version = 1\<rparr>, \<lparr>hash = zero_hash, version = 2\<rparr>]\<rparr>
      = canonical_layout
        \<lparr>bitmap = \<lparr>raw_mask = 6\<rparr>,
         children = [\<lparr>hash = zero_hash, version = 1\<rparr>, \<lparr>hash = zero_hash, version = 2\<rparr>]\<rparr>
   \<and> length (InternalNode_serialize_canonical
        \<lparr>bitmap = \<lparr>raw_mask = 6\<rparr>,
         children = [\<lparr>hash = zero_hash, version = 1\<rparr>, \<lparr>hash = zero_hash, version = 2\<rparr>]\<rparr>)
      = 146"
proof -
  let ?node = "\<lparr>bitmap = \<lparr>raw_mask = 6\<rparr>,
      children = [\<lparr>hash = zero_hash, version = 1\<rparr>, \<lparr>hash = zero_hash, version = 2\<rparr>]\<rparr>"
  have p: "popcount16 6 = 2" by (simp add: popcount16_def upt_rec)
  have w: "sparse_map_sized ?node" by (simp add: sparse_map_sized_def p)
  from serialize_canonical_layout [OF w]
  have a: "InternalNode_serialize_canonical ?node = canonical_layout ?node"
    and b: "length (InternalNode_serialize_canonical ?node)
           = 2 + popcount16 (raw_mask (bitmap ?node)) * (64 + 8)"
    by blast+
  have c: "length (InternalNode_serialize_canonical ?node) = 146"
    unfolding b by (simp add: p)
  from w a c show ?thesis by blast
qed

text \<open>
  Claim C5, as far as the code goes. For every internal node reached from the empty
  node by a sequence of \<open>set_child\<close> calls whose nibble arguments are below 16: every
  call is defined, the
  child list has exactly \<open>popcount(mask)\<close> entries, the descriptor of every present
  nibble \<open>n\<close> is stored at index \<open>popcount(mask & ((1 << n) - 1))\<close> and is the one
  most recently set for \<open>n\<close>, which is what \<open>get_child(n)\<close> returns, and
  \<open>get_child(n)\<close> is absent for every nibble whose mask bit is clear (no call has set
  such a nibble). The parameter type of \<open>set_child\<close> is \<open>uint8_t\<close> and the code does
  not check the argument; its documented domain is 0 to 15. For an argument outside
  that domain the invariant is lost, as the example after the theorem shows.
\<close>

theorem sparse_child_map_invariant:
  assumes "list_all (\<lambda>call. fst call < 16) calls"
  shows "\<exists>node. set_children InternalNode_new calls = Inr node
     \<and> length (children node) = popcount16 (raw_mask (bitmap node))
     \<and> (\<forall>n. n < 16 \<longrightarrow>
          (SparseBitmap_exists (bitmap node) n \<longrightarrow>
              popcount16 (raw_mask (bitmap node) AND (2 ^ unat n - 1)) < length (children node)
              \<and> latest_child calls n
                  = Some (children node ! popcount16 (raw_mask (bitmap node) AND (2 ^ unat n - 1)))
              \<and> InternalNode_get_child node n = Inr (latest_child calls n))
        \<and> (\<not> SparseBitmap_exists (bitmap node) n \<longrightarrow>
              latest_child calls n = None \<and> InternalNode_get_child node n = Inr None))"
proof -
  from set_children_run [OF sparse_map_sized_new assms]
  obtain node where run: "set_children InternalNode_new calls = Inr node"
    and sz: "sparse_map_sized node"
    and c: "\<And>m. m < 16 \<Longrightarrow> child_at node m
                = (case latest_child calls m of Some c \<Rightarrow> Some c | None \<Rightarrow> child_at InternalNode_new m)"
    by blast
  have at: "child_at node n = latest_child calls n" if "n < 16" for n
    using c [OF that] by (simp add: child_at_new split: option.splits)
  have present: "popcount16 (raw_mask (bitmap node) AND (2 ^ unat n - 1)) < length (children node)
              \<and> latest_child calls n
                  = Some (children node ! popcount16 (raw_mask (bitmap node) AND (2 ^ unat n - 1)))
              \<and> InternalNode_get_child node n = Inr (latest_child calls n)"
    if n: "n < 16" and ex: "SparseBitmap_exists (bitmap node) n" for n
  proof -
    have k: "unat n \<le> 16" using n by (simp add: u8_less_16_iff)
    have m: "(2 ^ unat n - 1 :: u16) = mask (unat n)" by (simp add: mask_eq_exp_minus_1)
    have r: "popcount16 (raw_mask (bitmap node) AND (2 ^ unat n - 1))
           = length (filter (bit (raw_mask (bitmap node))) [0..<unat n])"
      unfolding m by (rule popcount16_and_mask [OF k])
    have l: "latest_child calls n
           = Some (children node ! popcount16 (raw_mask (bitmap node) AND (2 ^ unat n - 1)))"
      using at [OF n] ex by (simp add: child_at_def SparseBitmap_exists_iff_bit)
    from InternalNode_get_child_present [OF sz n ex] r l show ?thesis by simp
  qed
  have absent: "latest_child calls n = None \<and> InternalNode_get_child node n = Inr None"
    if n: "n < 16" and ex: "\<not> SparseBitmap_exists (bitmap node) n" for n
    using at [OF n] ex
    by (simp add: child_at_def SparseBitmap_exists_iff_bit InternalNode_get_child_def)
  from run sz present absent show ?thesis
    unfolding sparse_map_sized_def by blast
qed

theorem sparse_child_map_invariant_witness:
  "list_all (\<lambda>call. fst call < 16)
     [(3 :: u8, zero_hash, 1 :: u64), (7, zero_hash, 2), (3, zero_hash, 5)]
   \<and> (\<exists>node. set_children InternalNode_new
                 [(3, zero_hash, 1), (7, zero_hash, 2), (3, zero_hash, 5)] = Inr node
        \<and> length (children node) = popcount16 (raw_mask (bitmap node))
        \<and> InternalNode_get_child node 3 = Inr (Some \<lparr>hash = zero_hash, version = 5\<rparr>)
        \<and> InternalNode_get_child node 7 = Inr (Some \<lparr>hash = zero_hash, version = 2\<rparr>)
        \<and> InternalNode_get_child node 0 = Inr None)"
proof -
  let ?calls = "[(3 :: u8, zero_hash, 1 :: u64), (7, zero_hash, 2), (3, zero_hash, 5)]"
  have h: "list_all (\<lambda>call. fst call < 16) ?calls" by simp
  from sparse_child_map_invariant [OF h]
  obtain node where run: "set_children InternalNode_new ?calls = Inr node"
    and len: "length (children node) = popcount16 (raw_mask (bitmap node))"
    and p: "\<And>n. n < 16 \<Longrightarrow> SparseBitmap_exists (bitmap node) n \<Longrightarrow>
                InternalNode_get_child node n = Inr (latest_child ?calls n)"
    and a: "\<And>n. n < 16 \<Longrightarrow> \<not> SparseBitmap_exists (bitmap node) n \<Longrightarrow>
                latest_child ?calls n = None \<and> InternalNode_get_child node n = Inr None"
    by blast
  have e3: "SparseBitmap_exists (bitmap node) 3" using a [of 3] by auto
  have e7: "SparseBitmap_exists (bitmap node) 7" using a [of 7] by auto
  have "InternalNode_get_child node 3 = Inr (Some \<lparr>hash = zero_hash, version = 5\<rparr>)"
    using p [OF _ e3] by simp
  moreover have "InternalNode_get_child node 7 = Inr (Some \<lparr>hash = zero_hash, version = 2\<rparr>)"
    using p [OF _ e7] by simp
  moreover have "InternalNode_get_child node 0 = Inr None"
  proof (cases "SparseBitmap_exists (bitmap node) 0")
    case True
    from p [OF _ True] show ?thesis by simp
  next
    case False
    from a [OF _ False] show ?thesis by simp
  qed
  ultimately show ?thesis using h run len by blast
qed

text \<open>The claim as stated, for any sequence of calls: \<open>set_child(16, h, 9)\<close> on the
  empty node. Bit 16 does not exist in the 16-bit mask, so \<open>exists(16)\<close> is false and
  \<open>set(16)\<close> leaves the mask 0; \<open>mask_before\<close> is \<open>0xFFFF\<close>, the index is 0, and the
  descriptor is inserted. The node has one child and no mask bit.\<close>

theorem set_child_sixteen_counterexample:
  "set_children InternalNode_new [(16, zero_hash, 9)]
     = Inr \<lparr>bitmap = \<lparr>raw_mask = 0\<rparr>, children = [\<lparr>hash = zero_hash, version = 9\<rparr>]\<rparr>
   \<and> length (children \<lparr>bitmap = \<lparr>raw_mask = 0\<rparr>, children = [\<lparr>hash = zero_hash, version = 9\<rparr>]\<rparr>)
       \<noteq> popcount16 (raw_mask (bitmap
            \<lparr>bitmap = \<lparr>raw_mask = 0\<rparr>, children = [\<lparr>hash = zero_hash, version = 9\<rparr>]\<rparr>))"
proof -
  have e: "\<not> SparseBitmap_exists SparseBitmap_new 16"
    by (simp add: SparseBitmap_exists_def SparseBitmap_new_def)
  have s: "SparseBitmap_set SparseBitmap_new 16 = \<lparr>raw_mask = 0\<rparr>"
    by (simp add: SparseBitmap_set_def SparseBitmap_new_def)
  have p: "popcount16 0 = 0" by (simp add: popcount16_def)
  have i: "SparseBitmap_get_index \<lparr>raw_mask = 0\<rparr> 16 = 0"
    by (simp add: SparseBitmap_get_index_def p)
  have "InternalNode_set_child InternalNode_new 16 zero_hash 9
      = Inr \<lparr>bitmap = \<lparr>raw_mask = 0\<rparr>, children = [\<lparr>hash = zero_hash, version = 9\<rparr>]\<rparr>"
    using e by (simp add: InternalNode_set_child_def InternalNode_new_def Let_def s i)
  thus ?thesis by (simp add: p)
qed

section \<open>Node serialization: results\<close>

text \<open>
  Claim C1. \<open>deserialize_node_from_bytes\<close> returns a node exactly for the byte
  sequences that are validly framed: a leaf of exactly \<open>1 + 2H\<close> bytes, an internal
  node of exactly \<open>1 + 2 + popcount(mask) * (H + 8)\<close> bytes; the empty input, an
  unknown tag, and any other length give no node. Hence no byte sequence one byte
  longer or one byte shorter than an accepted one is accepted, whatever its bytes are,
  and this holds in particular next to the framed encoding of any well-formed node.
\<close>

theorem deserialize_strict_framing:
  "(deserialize_node_from_bytes b \<noteq> None \<longleftrightarrow> valid_framed b)
   \<and> deserialize_node_from_bytes [] = None
   \<and> (b \<noteq> [] \<and> b ! 0 \<noteq> 0x01 \<and> b ! 0 \<noteq> 0x02 \<longrightarrow> deserialize_node_from_bytes b = None)
   \<and> (deserialize_node_from_bytes b \<noteq> None
        \<and> (length b' = length b + 1 \<or> length b' + 1 = length b)
        \<longrightarrow> deserialize_node_from_bytes b' = None)
   \<and> (well_formed_node N
        \<and> (length b'' = length (serialize_node_with_prefix N) + 1
             \<or> length b'' + 1 = length (serialize_node_with_prefix N))
        \<longrightarrow> deserialize_node_from_bytes b'' = None)"
proof (intro conjI impI)
  show "deserialize_node_from_bytes b \<noteq> None \<longleftrightarrow> valid_framed b"
    by (rule deserialize_Some_iff_valid_framed)
  show "deserialize_node_from_bytes [] = None"
    by (simp add: deserialize_node_from_bytes_def)
  show "deserialize_node_from_bytes b = None"
    if "b \<noteq> [] \<and> b ! 0 \<noteq> 0x01 \<and> b ! 0 \<noteq> 0x02"
    using that by (simp add: deserialize_node_from_bytes_def)
  show "deserialize_node_from_bytes b' = None"
    if "deserialize_node_from_bytes b \<noteq> None
        \<and> (length b' = length b + 1 \<or> length b' + 1 = length b)"
    using that valid_framed_neighbour [of b b'] deserialize_Some_iff_valid_framed [of b]
      deserialize_Some_iff_valid_framed [of b'] by blast
  show "deserialize_node_from_bytes b'' = None"
    if h: "well_formed_node N
        \<and> (length b'' = length (serialize_node_with_prefix N) + 1
             \<or> length b'' + 1 = length (serialize_node_with_prefix N))"
  proof -
    have "valid_framed (serialize_node_with_prefix N)"
      using h by (intro valid_framed_serialize) simp
    from valid_framed_neighbour [OF this, of b''] h
    show ?thesis using deserialize_Some_iff_valid_framed [of b''] by blast
  qed
qed

theorem deserialize_strict_framing_witness:
  "deserialize_node_from_bytes [0x01, 0x00, 0x00] \<noteq> None
   \<and> valid_framed [0x01, 0x00, 0x00]
   \<and> deserialize_node_from_bytes [0x07, 0x00, 0x00] = None
   \<and> deserialize_node_from_bytes ([0x01, 0x00, 0x00] @ [0xCC]) = None
   \<and> deserialize_node_from_bytes (butlast [0x01, 0x00, 0x00]) = None
   \<and> well_formed_node (Leaf \<lparr>account_key = zero_hash, value_hash = zero_hash\<rparr>)
   \<and> deserialize_node_from_bytes
        (serialize_node_with_prefix (Leaf \<lparr>account_key = zero_hash, value_hash = zero_hash\<rparr>) @ [0xCC]) = None"
proof -
  have v: "valid_framed [0x01, 0x00, 0x00]"
    by (simp add: valid_framed_def framed_mask_def popcount16_def)
  note t = deserialize_strict_framing [of "[0x01, 0x00, 0x00]" "[0x01, 0x00, 0x00] @ [0xCC]"
      "Leaf \<lparr>account_key = zero_hash, value_hash = zero_hash\<rparr>"
      "serialize_node_with_prefix (Leaf \<lparr>account_key = zero_hash, value_hash = zero_hash\<rparr>) @ [0xCC]"]
  note u = deserialize_strict_framing [of "[0x01, 0x00, 0x00]" "butlast [0x01, 0x00, 0x00]"]
  note w = deserialize_strict_framing [of "[0x07, 0x00, 0x00]"]
  have 1: "deserialize_node_from_bytes [0x01, 0x00, 0x00] \<noteq> None" using t v by blast
  have 2: "deserialize_node_from_bytes ([0x01, 0x00, 0x00] @ [0xCC]) = None"
    using t 1 by simp
  have 3: "deserialize_node_from_bytes (butlast [0x01, 0x00, 0x00]) = None"
    using u 1 by simp
  have 4: "deserialize_node_from_bytes [0x07, 0x00, 0x00] = None"
    using w by simp
  have 5: "deserialize_node_from_bytes
        (serialize_node_with_prefix (Leaf \<lparr>account_key = zero_hash, value_hash = zero_hash\<rparr>) @ [0xCC]) = None"
    using t by simp
  show ?thesis using v 1 2 3 4 5 by simp
qed

text \<open>
  Claim C2. For every node \<open>N\<close>, a leaf or an internal node whose child list holds
  exactly \<open>popcount(mask)\<close> descriptors, deserializing the framed encoding of \<open>N\<close>
  returns \<open>N\<close>.
\<close>

theorem deserialize_serialize_roundtrip:
  "well_formed_node N \<Longrightarrow>
   deserialize_node_from_bytes (serialize_node_with_prefix N) = Some N"
proof (cases N)
  case (Internal n)
  assume "well_formed_node N"
  with Internal have "sparse_map_sized n" by simp
  from deserialize_Internal [OF this] Internal show ?thesis by (simp only:)
next
  case (Leaf l)
  from deserialize_Leaf [of l] Leaf show ?thesis by (simp only:)
qed

theorem deserialize_serialize_roundtrip_witness:
  "well_formed_node
     (Internal \<lparr>bitmap = \<lparr>raw_mask = 6\<rparr>,
                children = [\<lparr>hash = zero_hash, version = 1\<rparr>, \<lparr>hash = zero_hash, version = 2\<rparr>]\<rparr>)
   \<and> deserialize_node_from_bytes
        (serialize_node_with_prefix
          (Internal \<lparr>bitmap = \<lparr>raw_mask = 6\<rparr>,
                children = [\<lparr>hash = zero_hash, version = 1\<rparr>, \<lparr>hash = zero_hash, version = 2\<rparr>]\<rparr>))
      = Some (Internal \<lparr>bitmap = \<lparr>raw_mask = 6\<rparr>,
                children = [\<lparr>hash = zero_hash, version = 1\<rparr>, \<lparr>hash = zero_hash, version = 2\<rparr>]\<rparr>)"
proof -
  have w: "well_formed_node
     (Internal \<lparr>bitmap = \<lparr>raw_mask = 6\<rparr>,
                children = [\<lparr>hash = zero_hash, version = 1\<rparr>, \<lparr>hash = zero_hash, version = 2\<rparr>]\<rparr>)"
    by (simp add: sparse_map_sized_def popcount16_def upt_rec)
  from deserialize_serialize_roundtrip [OF w] w show ?thesis by simp
qed

section \<open>Hashing, overlay and LRU cache: lemmas\<close>

subsection \<open>Domain strings\<close>

lemma domain_strings_differ_at_8:
  "(string_bytes XOOK_INTERNAL_NODE_DOMAIN @ xs) ! 8 \<noteq> (string_bytes XOOK_LEAF_NODE_DOMAIN @ ys) ! 8"
  by (simp add: string_bytes_def XOOK_INTERNAL_NODE_DOMAIN_def XOOK_LEAF_NODE_DOMAIN_def)

lemma domain_prefixed_inputs_differ:
  "string_bytes XOOK_INTERNAL_NODE_DOMAIN @ xs \<noteq> string_bytes XOOK_LEAF_NODE_DOMAIN @ ys"
  using domain_strings_differ_at_8 [of xs ys] by auto

lemma canonical_encodings_never_coincide:
  "InternalNode_serialize_canonical I \<noteq> LeafNode_serialize_canonical L"
proof
  assume "InternalNode_serialize_canonical I = LeafNode_serialize_canonical L"
  hence "length (InternalNode_serialize_canonical I) = length (LeafNode_serialize_canonical L)"
    by simp
  hence "2 + 72 * length (children I) = 128"
    by (simp add: InternalNode_serialize_canonical_length LeafNode_serialize_canonical_length)
  thus False by arith
qed

lemma pad_hash_bytes: "hash_bytes (pad_hash bs) = take 64 (bs @ replicate 64 0)"
  by (simp add: pad_hash_def bytes_to_hash_inverse)

lemma pad_hash_nth: "i < 64 \<Longrightarrow> i < length bs \<Longrightarrow> hash_bytes (pad_hash bs) ! i = bs ! i"
  by (simp add: pad_hash_bytes nth_append)

subsection \<open>The overlay and the LRU list\<close>

lemma overlay_step_base: "base_cache (overlay_step s call) = base_cache s"
  by (cases call)
    (simp_all add: SpeculativeTreeCache_put_def SpeculativeTreeCache_inject_node_def
      SpeculativeTreeCache_clear_def)

lemma overlay_run_base: "base_cache (overlay_run s calls) = base_cache s"
  unfolding overlay_run_def
  by (induction calls arbitrary: s) (simp_all add: overlay_step_base)

lemma TreeCache_get_result: "fst (TreeCache_get c key) = cache_map c key"
  by (simp add: TreeCache_get_def split: option.splits)

lemma TreeCache_get_entries:
  "cache_map (snd (TreeCache_get c key)) = cache_map c"
  "TreeCache_size (snd (TreeCache_get c key)) = TreeCache_size c"
  "capacity (snd (TreeCache_get c key)) = capacity c"
  by (simp_all add: TreeCache_get_def TreeCache_size_def split: option.splits)

lemma TreeCache_present_iff: "TreeCache_present c k \<longleftrightarrow> cache_map c k \<noteq> None"
  by (simp add: TreeCache_present_def TreeCache_get_result)

lemma TreeCache_put_all_append:
  "TreeCache_put_all c (xs @ ys)
     = (case TreeCache_put_all c xs of Inl e \<Rightarrow> Inl e | Inr c' \<Rightarrow> TreeCache_put_all c' ys)"
  by (induction xs arbitrary: c) (auto split: sum.splits)

lemma TreeCache_put_fresh_room:
  assumes "cache_map c k = None" and "dom (cache_map c) = set (lru_list c)"
    and "distinct (lru_list c)" and "length (lru_list c) < capacity c"
  shows "TreeCache_put c k v
       = Inr (c\<lparr>lru_list := k # lru_list c, cache_map := (cache_map c)(k \<mapsto> v)\<rparr>)"
proof -
  have "TreeCache_size c = length (lru_list c)"
    using assms(2,3) by (simp add: TreeCache_size_def distinct_card)
  thus ?thesis using assms(1,4) by (simp add: TreeCache_put_def)
qed

lemma TreeCache_put_fresh_full:
  assumes "cache_map c k = None" and "dom (cache_map c) = set (lru_list c)"
    and "distinct (lru_list c)" and "length (lru_list c) = capacity c" and "lru_list c \<noteq> []"
  shows "TreeCache_put c k v
       = Inr (c\<lparr>lru_list := k # butlast (lru_list c),
                 cache_map := ((cache_map c)(last (lru_list c) := None))(k \<mapsto> v)\<rparr>)"
proof -
  have "TreeCache_size c = length (lru_list c)"
    using assms(2,3) by (simp add: TreeCache_size_def distinct_card)
  thus ?thesis using assms(1,4,5) by (simp add: TreeCache_put_def Let_def)
qed

lemma TreeCache_put_all_fresh:
  assumes "distinct (map fst kvs)" and "length kvs \<le> c"
  shows "TreeCache_put_all (TreeCache_new c) kvs
       = Inr \<lparr>capacity = c, lru_list = rev (map fst kvs), cache_map = map_of (rev kvs)\<rparr>"
  using assms
proof (induction kvs rule: rev_induct)
  case Nil
  then show ?case by (simp add: TreeCache_new_def)
next
  case (snoc kv kvs)
  obtain k v where kv: "kv = (k, v)" by (cases kv)
  let ?s = "\<lparr>capacity = c, lru_list = rev (map fst kvs), cache_map = map_of (rev kvs)\<rparr>"
  from snoc.prems have d: "distinct (map fst kvs)" and l: "length kvs < c"
    and f: "k \<notin> set (map fst kvs)" by (simp_all add: kv)
  from snoc.IH [OF d] l have s: "TreeCache_put_all (TreeCache_new c) kvs = Inr ?s" by simp
  have "cache_map ?s k = None" using f by (simp add: map_of_eq_None_iff)
  moreover have "dom (cache_map ?s) = set (lru_list ?s)" by (simp add: dom_map_of_conv_image_fst)
  moreover have "distinct (lru_list ?s)" using d by simp
  moreover have "length (lru_list ?s) < capacity ?s" using l by simp
  ultimately have "TreeCache_put ?s k v
       = Inr (?s\<lparr>lru_list := k # lru_list ?s, cache_map := (cache_map ?s)(k \<mapsto> v)\<rparr>)"
    by (rule TreeCache_put_fresh_room)
  thus ?case using s by (auto simp add: TreeCache_put_all_append kv)
qed

lemma last_rev_keys: "kvs \<noteq> [] \<Longrightarrow> last (rev (map fst kvs)) = fst (hd kvs)"
  by (cases kvs) simp_all

lemma butlast_rev_keys: "butlast (rev (map fst kvs)) = rev (map fst (tl kvs))"
  by (cases kvs) simp_all

lemma lru_overflow:
  assumes c: "1 \<le> c" and len: "length kvs = c" and d: "distinct (map fst kvs)"
    and f: "k \<notin> set (map fst kvs)"
  shows "TreeCache_put_all (TreeCache_new c) (kvs @ [(k, v)])
       = Inr \<lparr>capacity = c, lru_list = k # rev (map fst (tl kvs)),
               cache_map = ((map_of (rev kvs))(fst (hd kvs) := None))(k \<mapsto> v)\<rparr>"
proof -
  let ?s = "\<lparr>capacity = c, lru_list = rev (map fst kvs), cache_map = map_of (rev kvs)\<rparr>"
  have ne: "kvs \<noteq> []" using c len by auto
  have s: "TreeCache_put_all (TreeCache_new c) kvs = Inr ?s"
    using TreeCache_put_all_fresh [OF d] len by simp
  have "cache_map ?s k = None" using f by (simp add: map_of_eq_None_iff)
  moreover have "dom (cache_map ?s) = set (lru_list ?s)" by (simp add: dom_map_of_conv_image_fst)
  moreover have "distinct (lru_list ?s)" using d by simp
  moreover have "length (lru_list ?s) = capacity ?s" using len by simp
  moreover have "lru_list ?s \<noteq> []" using ne by simp
  ultimately have "TreeCache_put ?s k v
       = Inr (?s\<lparr>lru_list := k # butlast (lru_list ?s),
                 cache_map := ((cache_map ?s)(last (lru_list ?s) := None))(k \<mapsto> v)\<rparr>)"
    by (rule TreeCache_put_fresh_full)
  thus ?thesis
    using s by (simp add: TreeCache_put_all_append last_rev_keys [OF ne] butlast_rev_keys map_tl)
qed

lemma lru_get_then_overflow:
  assumes c: "2 \<le> c" and len: "length kvs = c" and d: "distinct (map fst kvs)"
    and f: "k \<notin> set (map fst kvs)"
  shows "get_oldest_then_put c kvs k v
       = Inr \<lparr>capacity = c, lru_list = k # fst (hd kvs) # rev (map fst (tl (tl kvs))),
               cache_map = ((map_of (rev kvs))(fst (hd (tl kvs)) := None))(k \<mapsto> v)\<rparr>"
proof -
  obtain k1 v1 k2 v2 rest where kvs: "kvs = (k1, v1) # (k2, v2) # rest"
    using c len by (cases kvs; cases "tl kvs") auto
  let ?s = "\<lparr>capacity = c, lru_list = rev (map fst kvs), cache_map = map_of (rev kvs)\<rparr>"
  let ?g = "?s\<lparr>lru_list := k1 # rev (map fst (tl kvs))\<rparr>"
  have s: "TreeCache_put_all (TreeCache_new c) kvs = Inr ?s"
    using TreeCache_put_all_fresh [OF d] len by simp
  have k1: "k1 \<notin> set (map fst (tl kvs))" using d kvs by auto
  have m1: "map_of (rev kvs) k1 \<noteq> None"
    by (simp add: map_of_eq_None_iff kvs)
  have r: "remove1 k1 (rev (map fst kvs)) = rev (map fst (tl kvs))"
    using k1 by (simp add: kvs remove1_append remove1_idem)
  have g: "snd (TreeCache_get ?s k1) = ?g"
    using m1 r by (auto simp add: TreeCache_get_def split: option.splits)
  have "cache_map ?g k = None" using f by (simp add: map_of_eq_None_iff)
  moreover have "dom (cache_map ?g) = set (lru_list ?g)"
    by (auto simp add: dom_map_of_conv_image_fst kvs)
  moreover have "distinct (lru_list ?g)" using d by (simp add: kvs)
  moreover have "length (lru_list ?g) = capacity ?g" using len by (simp add: kvs)
  moreover have "lru_list ?g \<noteq> []" by simp
  ultimately have "TreeCache_put ?g k v
       = Inr (?g\<lparr>lru_list := k # butlast (lru_list ?g),
                 cache_map := ((cache_map ?g)(last (lru_list ?g) := None))(k \<mapsto> v)\<rparr>)"
    by (rule TreeCache_put_fresh_full)
  moreover have "last (lru_list ?g) = k2" by (simp add: kvs)
  moreover have "butlast (lru_list ?g) = k1 # rev (map fst rest)" by (simp add: kvs)
  ultimately show ?thesis
    using s g by (simp add: get_oldest_then_put_def kvs)
qed

section \<open>Node hashing: results\<close>

text \<open>
  Claim C3. The hash of a node is the hash function applied to a fixed domain string,
  one for internal nodes and a different one for leaves, followed by the node's
  canonical bytes. The two hash inputs of an internal node and a leaf always differ
  (the domain strings differ at their ninth character), so the two hashes differ
  whenever the hash function is injective on these two inputs. The claim's premise
  that the two canonical encodings coincide is not needed, and in this code it never
  holds (\<open>canonical_encodings_never_coincide\<close>: \<open>2 + 72 k\<close> bytes against 128).
\<close>

theorem node_hash_domain_separation:
  "hash_node blake3 (Internal I)
     = blake3 (string_bytes XOOK_INTERNAL_NODE_DOMAIN @ InternalNode_serialize_canonical I)
   \<and> hash_node blake3 (Leaf L)
     = blake3 (string_bytes XOOK_LEAF_NODE_DOMAIN @ LeafNode_serialize_canonical L)
   \<and> string_bytes XOOK_INTERNAL_NODE_DOMAIN \<noteq> string_bytes XOOK_LEAF_NODE_DOMAIN
   \<and> string_bytes XOOK_INTERNAL_NODE_DOMAIN @ InternalNode_serialize_canonical I
       \<noteq> string_bytes XOOK_LEAF_NODE_DOMAIN @ LeafNode_serialize_canonical L
   \<and> (inj_on blake3 {string_bytes XOOK_INTERNAL_NODE_DOMAIN @ InternalNode_serialize_canonical I,
                      string_bytes XOOK_LEAF_NODE_DOMAIN @ LeafNode_serialize_canonical L}
        \<longrightarrow> hash_node blake3 (Internal I) \<noteq> hash_node blake3 (Leaf L))"
proof -
  let ?a = "string_bytes XOOK_INTERNAL_NODE_DOMAIN @ InternalNode_serialize_canonical I"
  let ?b = "string_bytes XOOK_LEAF_NODE_DOMAIN @ LeafNode_serialize_canonical L"
  have d: "?a \<noteq> ?b" by (rule domain_prefixed_inputs_differ)
  have s: "string_bytes XOOK_INTERNAL_NODE_DOMAIN \<noteq> string_bytes XOOK_LEAF_NODE_DOMAIN"
    using domain_prefixed_inputs_differ [of "[]" "[]"] by simp
  have "blake3 ?a \<noteq> blake3 ?b" if "inj_on blake3 {?a, ?b}"
    using that d by (auto simp: inj_on_def)
  thus ?thesis using d s by (simp add: InternalNode_hash_def LeafNode_hash_def)
qed

theorem node_hash_domain_separation_witness:
  "inj_on pad_hash
     {string_bytes XOOK_INTERNAL_NODE_DOMAIN @ InternalNode_serialize_canonical InternalNode_new,
      string_bytes XOOK_LEAF_NODE_DOMAIN
        @ LeafNode_serialize_canonical \<lparr>account_key = zero_hash, value_hash = zero_hash\<rparr>}
   \<and> hash_node pad_hash (Internal InternalNode_new)
       \<noteq> hash_node pad_hash (Leaf \<lparr>account_key = zero_hash, value_hash = zero_hash\<rparr>)"
proof -
  let ?a = "string_bytes XOOK_INTERNAL_NODE_DOMAIN @ InternalNode_serialize_canonical InternalNode_new"
  let ?b = "string_bytes XOOK_LEAF_NODE_DOMAIN
        @ LeafNode_serialize_canonical \<lparr>account_key = zero_hash, value_hash = zero_hash\<rparr>"
  have la: "8 < length ?a" and lb: "8 < length ?b"
    by (simp_all add: string_bytes_def XOOK_INTERNAL_NODE_DOMAIN_def XOOK_LEAF_NODE_DOMAIN_def)
  have "hash_bytes (pad_hash ?a) ! 8 \<noteq> hash_bytes (pad_hash ?b) ! 8"
    using domain_strings_differ_at_8 la lb by (simp add: pad_hash_nth)
  hence "pad_hash ?a \<noteq> pad_hash ?b" by auto
  hence i: "inj_on pad_hash {?a, ?b}" by (auto simp: inj_on_def)
  from node_hash_domain_separation [of pad_hash InternalNode_new
      "\<lparr>account_key = zero_hash, value_hash = zero_hash\<rparr>"] i
  show ?thesis by blast
qed

section \<open>Speculative overlay: results\<close>

text \<open>
  Claim C6. Whatever sequence of \<open>put\<close>, \<open>inject_node\<close> and \<open>clear\<close> calls is made on
  a speculative cache, the base cache it wraps is left as it was, entries and size;
  \<open>put\<close> writes the overlay map only, \<open>inject_node\<close> the injected map only, \<open>clear\<close>
  empties these two maps only; and \<open>get\<close> returns the overlay's entry for the key if
  there is one, else the injected entry if there is one, else what the base cache
  holds (nothing without a base).
\<close>

theorem speculative_overlay_frame:
  "base_cache (overlay_run s calls) = base_cache s
   \<and> map_option cache_map (base_cache (overlay_run s calls)) = map_option cache_map (base_cache s)
   \<and> map_option TreeCache_size (base_cache (overlay_run s calls))
       = map_option TreeCache_size (base_cache s)
   \<and> overlay (SpeculativeTreeCache_put s k v) = (overlay s)(k \<mapsto> v)
   \<and> injected (SpeculativeTreeCache_put s k v) = injected s
   \<and> base_cache (SpeculativeTreeCache_put s k v) = base_cache s
   \<and> overlay (SpeculativeTreeCache_inject_node s k v) = overlay s
   \<and> injected (SpeculativeTreeCache_inject_node s k v) = (injected s)(k \<mapsto> v)
   \<and> base_cache (SpeculativeTreeCache_inject_node s k v) = base_cache s
   \<and> overlay (SpeculativeTreeCache_clear s) = Map.empty
   \<and> injected (SpeculativeTreeCache_clear s) = Map.empty
   \<and> base_cache (SpeculativeTreeCache_clear s) = base_cache s
   \<and> fst (SpeculativeTreeCache_get s key)
       = (case overlay s key of
            Some node \<Rightarrow> Some node
          | None \<Rightarrow>
              (case injected s key of
                 Some node \<Rightarrow> Some node
               | None \<Rightarrow>
                   (case base_cache s of
                      None \<Rightarrow> None
                    | Some b \<Rightarrow> cache_map b key)))"
proof -
  have g: "fst (SpeculativeTreeCache_get s key)
       = (case overlay s key of
            Some node \<Rightarrow> Some node
          | None \<Rightarrow>
              (case injected s key of
                 Some node \<Rightarrow> Some node
               | None \<Rightarrow>
                   (case base_cache s of
                      None \<Rightarrow> None
                    | Some b \<Rightarrow> cache_map b key)))"
    by (simp add: SpeculativeTreeCache_get_def TreeCache_get_result [symmetric]
        split: option.splits prod.splits)
  show ?thesis
    using g
    by (simp add: overlay_run_base SpeculativeTreeCache_put_def
        SpeculativeTreeCache_inject_node_def SpeculativeTreeCache_clear_def)
qed

section \<open>LRU cache: results\<close>

text \<open>
  Claim C7, as far as the code goes. Take a cache of capacity \<open>c \<ge> 1\<close>, empty at the
  start, and \<open>c + 1\<close> entries with distinct keys (\<open>kvs\<close>, of length \<open>c\<close>, then
  \<open>(k, v)\<close>). After the \<open>c + 1\<close> puts the first key is absent and all the others are
  present. If \<open>c \<ge> 2\<close> and the first key is retrieved with \<open>get\<close> before the last put,
  that put evicts the second key, and the first key and all the others are present.
  For \<open>c = 1\<close> the second part fails: the list holds the one key that \<open>get\<close> has just
  promoted, and the put evicts it.
\<close>

theorem lru_eviction:
  assumes "1 \<le> c" and "length kvs = c" and "distinct (map fst kvs)"
    and "k \<notin> set (map fst kvs)"
  shows "(\<exists>s. TreeCache_put_all (TreeCache_new c) (kvs @ [(k, v)]) = Inr s
            \<and> \<not> TreeCache_present s (fst (hd kvs))
            \<and> (\<forall>k' \<in> set (map fst (tl kvs)) \<union> {k}. TreeCache_present s k'))
       \<and> (2 \<le> c \<longrightarrow>
            (\<exists>s. get_oldest_then_put c kvs k v = Inr s
               \<and> TreeCache_present s (fst (hd kvs))
               \<and> \<not> TreeCache_present s (fst (hd (tl kvs)))
               \<and> (\<forall>k' \<in> set (map fst (tl (tl kvs))) \<union> {k}. TreeCache_present s k')))"
proof (intro conjI impI)
  obtain k1 v1 rest where kvs: "kvs = (k1, v1) # rest"
    using assms(1,2) by (cases kvs) auto
  let ?s = "\<lparr>capacity = c, lru_list = k # rev (map fst (tl kvs)),
               cache_map = ((map_of (rev kvs))(fst (hd kvs) := None))(k \<mapsto> v)\<rparr>"
  have "\<not> TreeCache_present ?s (fst (hd kvs))"
    using assms(4) by (auto simp: TreeCache_present_iff kvs)
  moreover have "TreeCache_present ?s k'" if "k' \<in> set (map fst (tl kvs)) \<union> {k}" for k'
  proof (cases "k' = k")
    case True
    thus ?thesis by (simp add: TreeCache_present_iff)
  next
    case False
    with that have m: "k' \<in> set (map fst rest)" by (simp add: kvs)
    hence "k' \<noteq> k1" using assms(3) by (auto simp: kvs)
    moreover have "map_of (rev kvs) k' \<noteq> None"
      using m by (simp add: map_of_eq_None_iff kvs)
    ultimately show ?thesis using False by (simp add: TreeCache_present_iff kvs)
  qed
  ultimately show "\<exists>s. TreeCache_put_all (TreeCache_new c) (kvs @ [(k, v)]) = Inr s
            \<and> \<not> TreeCache_present s (fst (hd kvs))
            \<and> (\<forall>k' \<in> set (map fst (tl kvs)) \<union> {k}. TreeCache_present s k')"
    using lru_overflow [OF assms, of v] by blast
next
  assume c2: "2 \<le> c"
  obtain k1 v1 k2 v2 rest where kvs: "kvs = (k1, v1) # (k2, v2) # rest"
    using c2 assms(2) by (cases kvs; cases "tl kvs") auto
  let ?s = "\<lparr>capacity = c, lru_list = k # fst (hd kvs) # rev (map fst (tl (tl kvs))),
               cache_map = ((map_of (rev kvs))(fst (hd (tl kvs)) := None))(k \<mapsto> v)\<rparr>"
  have k12: "k1 \<noteq> k2" "k1 \<noteq> k" "k2 \<noteq> k" using assms(3,4) by (auto simp: kvs)
  have "map_of (rev kvs) k1 \<noteq> None" by (simp add: map_of_eq_None_iff kvs)
  hence "TreeCache_present ?s (fst (hd kvs))"
    using k12 by (simp add: TreeCache_present_iff kvs)
  moreover have "\<not> TreeCache_present ?s (fst (hd (tl kvs)))"
    using k12 by (simp add: TreeCache_present_iff kvs)
  moreover have "TreeCache_present ?s k'" if "k' \<in> set (map fst (tl (tl kvs))) \<union> {k}" for k'
  proof (cases "k' = k")
    case True
    thus ?thesis by (simp add: TreeCache_present_iff)
  next
    case False
    with that have m: "k' \<in> set (map fst rest)" by (simp add: kvs)
    hence "k' \<noteq> k2" using assms(3) by (auto simp: kvs)
    moreover have "map_of (rev kvs) k' \<noteq> None"
      using m by (simp add: map_of_eq_None_iff kvs)
    ultimately show ?thesis using False by (simp add: TreeCache_present_iff kvs)
  qed
  ultimately show "\<exists>s. get_oldest_then_put c kvs k v = Inr s
               \<and> TreeCache_present s (fst (hd kvs))
               \<and> \<not> TreeCache_present s (fst (hd (tl kvs)))
               \<and> (\<forall>k' \<in> set (map fst (tl (tl kvs))) \<union> {k}. TreeCache_present s k')"
    using lru_get_then_overflow [OF c2 assms(2,3,4), of v] by blast
qed

theorem lru_eviction_witness:
  "(1 :: nat) \<le> 2 \<and> length [(0 :: nat, ''a''), (1, ''b'')] = 2
   \<and> distinct (map fst [(0 :: nat, ''a''), (1, ''b'')])
   \<and> (2 :: nat) \<notin> set (map fst [(0 :: nat, ''a''), (1, ''b'')])
   \<and> (\<exists>s. TreeCache_put_all (TreeCache_new 2) ([(0 :: nat, ''a''), (1, ''b'')] @ [(2, ''c'')]) = Inr s
         \<and> \<not> TreeCache_present s 0 \<and> TreeCache_present s 1 \<and> TreeCache_present s 2)
   \<and> (\<exists>s. get_oldest_then_put 2 [(0 :: nat, ''a''), (1, ''b'')] 2 ''c'' = Inr s
         \<and> TreeCache_present s 0 \<and> \<not> TreeCache_present s 1 \<and> TreeCache_present s 2)"
proof -
  have h: "(1 :: nat) \<le> 2" "length [(0 :: nat, ''a''), (1, ''b'')] = 2"
    "distinct (map fst [(0 :: nat, ''a''), (1, ''b'')])"
    "(2 :: nat) \<notin> set (map fst [(0 :: nat, ''a''), (1, ''b'')])"
    by simp_all
  from lru_eviction [OF h, of "''c''"] h show ?thesis by simp blast
qed

text \<open>The claim as stated, at capacity 1: after \<open>put(0)\<close>, \<open>get(0)\<close>, \<open>put(1)\<close> the
  oldest key 0 is not present.\<close>

theorem lru_capacity_one_counterexample:
  "get_oldest_then_put 1 [(0 :: nat, ''a'')] 1 ''b''
     = Inr \<lparr>capacity = 1, lru_list = [1], cache_map = [1 \<mapsto> ''b'']\<rparr>
   \<and> \<not> TreeCache_present \<lparr>capacity = 1, lru_list = [1 :: nat], cache_map = [1 \<mapsto> ''b'']\<rparr> 0"
  by (simp add: get_oldest_then_put_def TreeCache_new_def TreeCache_put_def TreeCache_get_def
      TreeCache_size_def TreeCache_present_def)

section \<open>Adapter: lemmas and results\<close>

lemma legacy_key_hash_length: "length (legacy_key_hash key) = 32"
  by (simp add: legacy_key_hash_def)

lemma XookAdapter_put_stores_under_hash:
  "map_of (pending_updates (XookAdapter_put blake3 a key val_hash ver)) (blake3 key)
     = Some (hash_bytes val_hash)"
  and "k \<noteq> blake3 key \<Longrightarrow>
       map_of (pending_updates (XookAdapter_put blake3 a key val_hash ver)) k
         = map_of (pending_updates a) k"
  and "current_version (XookAdapter_put blake3 a key val_hash ver) = ver"
  by (simp_all add: XookAdapter_put_def Let_def update_conv')

lemma XookAdapter_put_distinct_keys:
  assumes "blake3 key1 \<noteq> blake3 key2"
  shows "map_of (pending_updates
           (XookAdapter_put blake3 (XookAdapter_put blake3 a key1 v1 ver1) key2 v2 ver2))
           (blake3 key1) = Some (hash_bytes v1)"
    and "map_of (pending_updates
           (XookAdapter_put blake3 (XookAdapter_put blake3 a key1 v1 ver1) key2 v2 ver2))
           (blake3 key2) = Some (hash_bytes v2)"
  using assms by (simp_all add: XookAdapter_put_def Let_def update_conv')

text \<open>
  Claim C8. The adapter's \<open>put\<close> derives the stored key by hashing the raw key, never
  by a substring or zero-padded copy, so that two distinct raw keys with the same
  leading bytes are stored under distinct keys. \<open>XookAdapter::put\<close> does so
  (\<open>XookAdapter_put_stores_under_hash\<close>, \<open>XookAdapter_put_distinct_keys\<close>).
  \<open>XMTLegacyAdapter::put\<close> does not: it stores under the first 32 bytes of the raw
  key, or under the key padded with zeros. Two 33-byte keys that differ in their last
  byte get the same stored key, and the second put overwrites the first.
\<close>

theorem legacy_put_copies_key_prefix:
  "replicate 32 0xAA @ [0x01] \<noteq> (replicate 32 0xAA @ [0x02] :: Bytes)
   \<and> legacy_key_hash (replicate 32 0xAA @ [0x01]) = replicate 32 0xAA
   \<and> legacy_key_hash (replicate 32 0xAA @ [0x02]) = replicate 32 0xAA
   \<and> legacy_key_hash [0x01] = 0x01 # replicate 31 0
   \<and> XMTLegacyAdapter.pending_updates
        (XMTLegacyAdapter_put
          (XMTLegacyAdapter_put XMTLegacyAdapter_new
             (replicate 32 0xAA @ [0x01]) (replicate 32 0x11) 1)
          (replicate 32 0xAA @ [0x02]) (replicate 32 0x22) 1)
       = [(replicate 32 0xAA, replicate 32 0x22)]"
proof -
  have a: "legacy_key_hash (replicate 32 0xAA @ [x]) = replicate 32 0xAA" for x
    by (simp add: legacy_key_hash_def)
  have b: "legacy_key_hash [0x01] = 0x01 # replicate 31 0"
    by (simp add: legacy_key_hash_def)
  show ?thesis
    using b by (simp add: a XMTLegacyAdapter_put_def XMTLegacyAdapter_new_def Let_def)
qed

text \<open>
  Claim C9, as far as the code goes. \<open>calculate_root\<close> builds one batch from the hashed
  explicit updates and the pending entries. When that batch is not empty and
  \<open>put_value_set\<close> returns on it, \<open>calculate_root\<close> returns the batch that
  \<open>put_value_set\<close> returned, the pending map is empty, the cached version is the
  version given and the cached root is the new root hash, which \<open>get_root_hash\<close> then
  returns for that version; a failure of \<open>put_value_set\<close> is passed on. When the batch
  is empty, \<open>calculate_root\<close> returns an empty batch whose root is \<open>base_root\<close>, leaves
  the tree as it is (\<open>put_value_set\<close> is not called) and the pending map empty.
\<close>

theorem calculate_root_flush:
  "set (merged_batch blake3 a updates)
     = (\<lambda>(key, val_hash). (blake3 key, hash_bytes val_hash)) ` set updates
       \<union> set (pending_updates a)
   \<and> (merged_batch blake3 a updates \<noteq> []
        \<and> put_value_set (tree a) (map (\<lambda>(k, v). (k, Some v)) (merged_batch blake3 a updates))
              ver (Some base_root) base_version = Inr (result, t')
        \<longrightarrow> (\<exists>a'. XookAdapter_calculate_root put_value_set blake3 a updates base_root ver
                      base_version = Inr (result, a')
                  \<and> tree a' = t' \<and> pending_updates a' = [] \<and> current_version a' = ver
                  \<and> last_root a' = new_root_hash result
                  \<and> XookAdapter_get_root_hash tree_get_root_hash a' ver = new_root_hash result))
   \<and> (merged_batch blake3 a updates \<noteq> []
        \<and> put_value_set (tree a) (map (\<lambda>(k, v). (k, Some v)) (merged_batch blake3 a updates))
              ver (Some base_root) base_version = Inl e
        \<longrightarrow> XookAdapter_calculate_root put_value_set blake3 a updates base_root ver
              base_version = Inl e)
   \<and> (merged_batch blake3 a updates = []
        \<longrightarrow> (\<exists>a'. XookAdapter_calculate_root put_value_set blake3 a updates base_root ver
                      base_version = Inr (\<lparr>new_root_hash = base_root, node_batch = []\<rparr>, a')
                  \<and> tree a' = tree a \<and> pending_updates a' = []))"
proof (intro conjI impI)
  show "set (merged_batch blake3 a updates)
     = (\<lambda>(key, val_hash). (blake3 key, hash_bytes val_hash)) ` set updates
       \<union> set (pending_updates a)"
    by (simp add: merged_batch_def)
next
  assume h: "merged_batch blake3 a updates \<noteq> []
        \<and> put_value_set (tree a) (map (\<lambda>(k, v). (k, Some v)) (merged_batch blake3 a updates))
              ver (Some base_root) base_version = Inr (result, t')"
  let ?a' = "a\<lparr>tree := t', pending_updates := [], current_version := ver,
                last_root := new_root_hash result\<rparr>"
  have "XookAdapter_calculate_root put_value_set blake3 a updates base_root ver base_version
      = Inr (result, ?a')"
    using h by (simp add: XookAdapter_calculate_root_def Let_def)
  moreover have "XookAdapter_get_root_hash tree_get_root_hash ?a' ver = new_root_hash result"
    by (simp add: XookAdapter_get_root_hash_def)
  ultimately show "\<exists>a'. XookAdapter_calculate_root put_value_set blake3 a updates base_root ver
                      base_version = Inr (result, a')
                  \<and> tree a' = t' \<and> pending_updates a' = [] \<and> current_version a' = ver
                  \<and> last_root a' = new_root_hash result
                  \<and> XookAdapter_get_root_hash tree_get_root_hash a' ver = new_root_hash result"
    by (intro exI [of _ ?a']) simp
next
  assume "merged_batch blake3 a updates \<noteq> []
        \<and> put_value_set (tree a) (map (\<lambda>(k, v). (k, Some v)) (merged_batch blake3 a updates))
              ver (Some base_root) base_version = Inl e"
  thus "XookAdapter_calculate_root put_value_set blake3 a updates base_root ver base_version = Inl e"
    by (simp add: XookAdapter_calculate_root_def Let_def)
next
  assume e: "merged_batch blake3 a updates = []"
  hence "pending_updates a = []" by (simp add: merged_batch_def)
  with e show "\<exists>a'. XookAdapter_calculate_root put_value_set blake3 a updates base_root ver
                      base_version = Inr (\<lparr>new_root_hash = base_root, node_batch = []\<rparr>, a')
                  \<and> tree a' = tree a \<and> pending_updates a' = []"
    by (simp add: XookAdapter_calculate_root_def Let_def)
qed

theorem calculate_root_flush_witness:
  "merged_batch pad_hash example_adapter [([0x6C], zero_hash)] \<noteq> []
   \<and> (\<exists>a'. XookAdapter_calculate_root counting_put_value_set pad_hash example_adapter
              [([0x6C], zero_hash)] zero_hash 4 None
            = Inr (\<lparr>new_root_hash = pad_hash (hash_bytes (pad_hash [0x6C]) @ hash_bytes (pad_hash [0x6B])),
                    node_batch = []\<rparr>, a')
        \<and> tree a' = 1 \<and> pending_updates a' = [] \<and> current_version a' = 4
        \<and> last_root a' = pad_hash (hash_bytes (pad_hash [0x6C]) @ hash_bytes (pad_hash [0x6B])))
   \<and> merged_batch pad_hash (XookAdapter_new (0 :: nat)) [] = []
   \<and> (\<exists>a'. XookAdapter_calculate_root counting_put_value_set pad_hash (XookAdapter_new 0)
              [] zero_hash 4 None
            = Inr (\<lparr>new_root_hash = zero_hash, node_batch = []\<rparr>, a')
        \<and> tree a' = 0 \<and> pending_updates a' = [])"
proof -
  let ?res = "\<lparr>new_root_hash = pad_hash (hash_bytes (pad_hash [0x6C]) @ hash_bytes (pad_hash [0x6B])),
               node_batch = []\<rparr>"
  have m: "merged_batch pad_hash example_adapter [([0x6C], zero_hash)]
         = [(pad_hash [0x6C], hash_bytes zero_hash), (pad_hash [0x6B], hash_bytes zero_hash)]"
    by (simp add: merged_batch_def example_adapter_def XookAdapter_put_def XookAdapter_new_def)
  have t: "tree example_adapter = 0"
    by (simp add: example_adapter_def XookAdapter_put_def XookAdapter_new_def)
  have ne: "merged_batch pad_hash example_adapter [([0x6C], zero_hash)] \<noteq> []"
    by (simp add: m)
  have p: "counting_put_value_set (tree example_adapter)
             (map (\<lambda>(k, v). (k, Some v)) (merged_batch pad_hash example_adapter [([0x6C], zero_hash)]))
             4 (Some zero_hash) None = Inr (?res, 1)"
    by (simp add: m t counting_put_value_set_def)
  have e: "merged_batch pad_hash (XookAdapter_new (0 :: nat)) [] = []"
    by (simp add: merged_batch_def XookAdapter_new_def)
  have t0: "tree (XookAdapter_new (0 :: nat)) = 0" by (simp add: XookAdapter_new_def)
  from calculate_root_flush [of pad_hash example_adapter "[([0x6C], zero_hash)]"
      counting_put_value_set 4 zero_hash None ?res 1] ne p
  have 1: "\<exists>a'. XookAdapter_calculate_root counting_put_value_set pad_hash example_adapter
              [([0x6C], zero_hash)] zero_hash 4 None = Inr (?res, a')
        \<and> tree a' = 1 \<and> pending_updates a' = [] \<and> current_version a' = 4
        \<and> last_root a' = new_root_hash ?res"
    by blast
  from calculate_root_flush [of pad_hash "XookAdapter_new (0 :: nat)" "[]"
      counting_put_value_set 4 zero_hash None] e t0
  have 2: "\<exists>a'. XookAdapter_calculate_root counting_put_value_set pad_hash (XookAdapter_new 0)
              [] zero_hash 4 None
            = Inr (\<lparr>new_root_hash = zero_hash, node_batch = []\<rparr>, a')
        \<and> tree a' = 0 \<and> pending_updates a' = []"
    by simp
  from ne 1 e 2 show ?thesis by simp
qed

text \<open>The claim as stated, on an empty merged batch: a fresh adapter, no explicit
  updates, version 5. \<open>put_value_set\<close> is not called (the call counter of the tree
  stays 0), the batch returned is not the one \<open>put_value_set\<close> would return, and the
  cached version stays 0.\<close>

theorem calculate_root_empty_batch_counterexample:
  "XookAdapter_calculate_root counting_put_value_set pad_hash (XookAdapter_new 0) [] zero_hash 5 None
     = Inr (\<lparr>new_root_hash = zero_hash, node_batch = []\<rparr>, XookAdapter_new 0)
   \<and> tree (XookAdapter_new (0 :: nat)) = 0
   \<and> current_version (XookAdapter_new (0 :: nat)) \<noteq> 5"
  by (simp add: XookAdapter_calculate_root_def merged_batch_def XookAdapter_new_def)

end
